theory Spec2Isabelle
  imports Complex_Main "HOL-Library.Multiset"
begin

chapter \<open>The model\<close>

section \<open>Errors and tensors\<close>

text \<open>
  The exceptions the modelled Python code can raise. A function of the source that can
  raise returns \<open>error + 'a\<close>, with \<open>Inl\<close> for the exception. \<open>NotANumber\<close> is no
  exception: it marks a floating-point result that holds a not-a-number, which the model
  of the network's arithmetic over the reals does not follow further.
\<close>

datatype error =
    AssertionError
  | IndexError
  | RuntimeError
  | UnboundLocalError
  | ZeroDivisionError
  | ValueError
  | NotANumber

text \<open>
  A tensor of shape \<open>[seq_len, batch, dim]\<close> is a list over time of rows, a row being
  the list over the batch of the entries; an entry stands for the slice along the last
  axis (a feature vector), which the routines below move as a whole, and is kept
  polymorphic. \<open>seq_data.size(0)\<close> is the length of the outer list.
\<close>

type_synonym 'a tensor = "'a list list"

text \<open>\<open>t[:, i, :]\<close>: the column of batch element \<open>i\<close>; out of range raises.\<close>

definition select_column :: "'a tensor \<Rightarrow> nat \<Rightarrow> error + 'a list" where
  "select_column t i =
     (if list_all (\<lambda>row. i < length row) t then Inr (map (\<lambda>row. row ! i) t)
      else Inl IndexError)"

text \<open>\<open>col.index_select(0, idx)\<close> along the time axis; an index out of range raises.\<close>

definition index_select0 :: "'a list \<Rightarrow> int list \<Rightarrow> error + 'a list" where
  "index_select0 col idx =
     (if list_all (\<lambda>j. 0 \<le> j \<and> j < int (length col)) idx
      then Inr (map (\<lambda>j. col ! nat j) idx)
      else Inl RuntimeError)"

text \<open>
  \<open>torch.cat(cols, 1)\<close> of columns of shape \<open>[n, 1, dim]\<close>: the tensor of shape
  \<open>[n, len(cols), dim]\<close>. An empty list of tensors raises, and so do columns whose
  sizes along the time axis differ.
\<close>

definition torch_cat1 :: "'a list list \<Rightarrow> error + 'a tensor" where
  "torch_cat1 cols =
     (case cols of
        [] \<Rightarrow> Inl RuntimeError
      | c # cs \<Rightarrow>
          if list_all (\<lambda>d. length d = length c) cs
          then Inr (map (\<lambda>t. map (\<lambda>d. d ! t) cols) [0..<length c])
          else Inl RuntimeError)"

section \<open>The reversal routine of \<open>LuaBiRNNEncoder.forward\<close>\<close>

text \<open>
  \<^verbatim>\<open>idx_reversed = [j for j in range(l-1, -1, -1)] + [k for k in range(l, seq_data.size(0))]\<close>
  over Python's unbounded integers: \<open>range(l-1, -1, -1)\<close> counts down from \<open>l-1\<close> to
  \<open>0\<close> and is empty for \<open>l \<le> 0\<close>.
\<close>

definition idx_reversed :: "int \<Rightarrow> nat \<Rightarrow> int list" where
  "idx_reversed l n = rev [0..l - 1] @ [l..int n - 1]"

text \<open>
  The loop \<open>for i, l in enumerate(lengths)\<close>: one reversed column per length, in order.
  The assertion on the length of the index list comes before the column is read.
\<close>

fun reverse_loop :: "'a tensor \<Rightarrow> nat \<Rightarrow> int list \<Rightarrow> error + 'a list list" where
  "reverse_loop seq_data i [] = Inr []"
| "reverse_loop seq_data i (l # ls) =
     (let idx = idx_reversed l (length seq_data) in
      if length idx \<noteq> length seq_data then Inl AssertionError
      else case select_column seq_data i of
             Inl e \<Rightarrow> Inl e
           | Inr col \<Rightarrow>
               (case index_select0 col idx of
                  Inl e \<Rightarrow> Inl e
                | Inr input_reversed_i \<Rightarrow>
                    (case reverse_loop seq_data (Suc i) ls of
                       Inl e \<Rightarrow> Inl e
                     | Inr data_reversed \<Rightarrow> Inr (input_reversed_i # data_reversed))))"

definition reverse :: "'a tensor \<Rightarrow> int list \<Rightarrow> error + 'a tensor" where
  "reverse seq_data_input lengths =
     (case reverse_loop seq_data_input 0 lengths of
        Inl e \<Rightarrow> Inl e
      | Inr data_reversed \<Rightarrow> torch_cat1 data_reversed)"

text \<open>The column the loop builds for batch element \<open>i\<close> of true length \<open>l\<close>.\<close>

definition col_rev :: "'a tensor \<Rightarrow> nat \<Rightarrow> int \<Rightarrow> 'a list" where
  "col_rev seq_data i l = map (\<lambda>j. seq_data ! nat j ! i) (idx_reversed l (length seq_data))"

section \<open>The answer-span locator \<open>get_ans_posi\<close>\<close>

text \<open>
  \<open>t.size()[1]\<close> of a tensor given as its list of rows. The tensor library of the source
  has no dimension of size zero, so a tensor has a first row; the empty list is given
  size \<open>0\<close>.
\<close>

definition size1 :: "'a tensor \<Rightarrow> nat" where
  "size1 t = (case t of [] \<Rightarrow> 0 | row # _ \<Rightarrow> length row)"

text \<open>\<open>col.nonzero()\<close> of a one-dimensional mask: the indices of its set positions, ascending.\<close>

definition nonzero :: "bool list \<Rightarrow> nat list" where
  "nonzero col = filter (\<lambda>k. col ! k) [0..<length col]"

text \<open>
  \<^verbatim>\<open>torch.cat((is_ans[:, i].nonzero()[0], is_ans[:, i].nonzero()[-1] + 1))\<close> for one
  column: indexing the empty result of \<open>nonzero\<close> raises.
\<close>

definition ans_posi_column :: "bool list \<Rightarrow> error + nat list" where
  "ans_posi_column col =
     (case nonzero col of
        [] \<Rightarrow> Inl IndexError
      | k # ks \<Rightarrow> Inr [k, last (k # ks) + 1])"

text \<open>A list comprehension whose body can raise: the first exception ends it.\<close>

fun comprehension :: "('a \<Rightarrow> error + 'b) \<Rightarrow> 'a list \<Rightarrow> error + 'b list" where
  "comprehension f [] = Inr []"
| "comprehension f (x # xs) =
     (case f x of
        Inl e \<Rightarrow> Inl e
      | Inr y \<Rightarrow> (case comprehension f xs of Inl e \<Rightarrow> Inl e | Inr ys \<Rightarrow> Inr (y # ys)))"

text \<open>
  \<open>torch.stack(vs, dim=1)\<close> of one-dimensional tensors of equal length \<open>n\<close>: the tensor
  of shape \<open>[n, len(vs)]\<close>, which is how \<open>torch_cat1\<close> lays out its columns.
\<close>

definition torch_stack1 :: "'a list list \<Rightarrow> error + 'a tensor" where
  "torch_stack1 vs = torch_cat1 vs"

text \<open>
  \<open>get_ans_posi\<close> (the same text in \<open>LuaBiRNNEncoder.forward\<close> and
  \<open>PyBiRNNEncoder2.forward\<close>). The argument has shape \<open>[seq_len, batch]\<close>, the result
  shape \<open>[2, batch]\<close>: row 0 holds the starts and row 1 the ends.
\<close>

definition get_ans_posi :: "int tensor \<Rightarrow> error + nat tensor" where
  "get_ans_posi is_ans_feature =
     (let is_ans = map (map (\<lambda>v. v = 3)) is_ans_feature;
          batch_size = size1 is_ans
      in case comprehension
                (\<lambda>i. case select_column is_ans i of
                        Inl e \<Rightarrow> Inl e
                      | Inr col \<Rightarrow> ans_posi_column col)
                [0..<batch_size] of
           Inl e \<Rightarrow> Inl e
         | Inr ans_posi \<Rightarrow> torch_stack1 ans_posi)"

section \<open>Embedding matching: \<open>match_embeddings\<close> of \<open>my/preprocessing_embedding_pytorch.py\<close>\<close>

text \<open>
  The lines of the embedding file are taken after \<open>line.decode('utf-8')\<close>, as strings.
  The string methods are modelled on the ASCII range: \<open>strip()\<close> removes the ASCII
  white space of Python's \<open>str.isspace\<close>, \<open>lower()\<close> and \<open>upper()\<close> map the ASCII
  letters and leave every other character as it is.
\<close>

definition isspace :: "char \<Rightarrow> bool" where
  "isspace c = (let n = (of_char c :: nat) in (9 \<le> n \<and> n \<le> 13) \<or> (28 \<le> n \<and> n \<le> 32))"

definition strip :: "string \<Rightarrow> string" where
  "strip s = rev (dropWhile isspace (rev (dropWhile isspace s)))"

text \<open>\<open>s.split(sep=c)\<close> for a separator of one character: every occurrence splits.\<close>

fun split_sep :: "char \<Rightarrow> string \<Rightarrow> string list" where
  "split_sep c [] = [[]]"
| "split_sep c (x # xs) =
     (if x = c then [] # split_sep c xs
      else case split_sep c xs of
             [] \<Rightarrow> [[x]]
           | w # ws \<Rightarrow> (x # w) # ws)"

definition lower_char :: "char \<Rightarrow> char" where
  "lower_char c =
     (let n = (of_char c :: nat) in if 65 \<le> n \<and> n \<le> 90 then char_of (n + 32) else c)"

definition upper_char :: "char \<Rightarrow> char" where
  "upper_char c =
     (let n = (of_char c :: nat) in if 97 \<le> n \<and> n \<le> 122 then char_of (n - 32) else c)"

definition lower :: "string \<Rightarrow> string" where
  "lower w = map lower_char w"

definition upper :: "string \<Rightarrow> string" where
  "upper w = map upper_char w"

text \<open>
  The vocabulary: \<open>vocab.stoi\<close> as a map, and \<open>len(vocab)\<close>. Membership
  \<open>w in vocab.stoi\<close> is membership in the domain of the map.
\<close>

record vocab =
  stoi :: "string \<rightharpoonup> nat"
  len :: nat

text \<open>
  The variables the loop over the file updates. \<open>vec\<close> is a local variable of the
  function: it is unbound (\<open>None\<close>) until the first line whose fields all convert.
  \<open>printed\<close> collects the lines the exception handler prints with \<open>print(line)\<close>.
\<close>

record 'v match_state =
  filtered_embeddings :: "'v list list"
  done_flag :: "nat list"
  vec :: "'v list option"
  printed :: "string list"

text \<open>
  \<open>filtered_embeddings[w_id] = vec; done_flag[w_id] = 1\<close>. Both have \<open>len(vocab)\<close>
  entries; an index out of range raises.
\<close>

definition assign_vec :: "'v match_state \<Rightarrow> nat \<Rightarrow> 'v list \<Rightarrow> error + 'v match_state" where
  "assign_vec st w_id v =
     (if w_id < length (filtered_embeddings st) \<and> w_id < length (done_flag st)
      then Inr (st\<lparr>filtered_embeddings := (filtered_embeddings st)[w_id := v],
                   done_flag := (done_flag st)[w_id := 1]\<rparr>)
      else Inl IndexError)"

text \<open>The guarded assignment of the two fallback branches: \<open>if done_flag[w_id] == 0: ...\<close>.\<close>

definition assign_vec_if_new :: "'v match_state \<Rightarrow> nat \<Rightarrow> 'v list \<Rightarrow> error + 'v match_state" where
  "assign_vec_if_new st w_id v =
     (if w_id < length (done_flag st)
      then (if done_flag st ! w_id = 0 then assign_vec st w_id v else Inr st)
      else Inl IndexError)"

text \<open>
  One iteration of \<open>for line in emb_file\<close>. \<open>float_of\<close> is Python's \<open>float\<close> on a
  field, \<open>None\<close> when it raises \<open>ValueError\<close>; the list comprehension binds \<open>vec\<close> only
  when every field converts. The handler of the bare \<open>except\<close> tests \<open>if AssertionError:\<close>,
  the class itself, which is true whatever was raised, and so evaluates \<open>len(vec)\<close> in
  its message: with \<open>vec\<close> unbound that raises inside the handler and leaves the function.
\<close>

definition match_line ::
  "(string \<Rightarrow> 'v option) \<Rightarrow> vocab \<Rightarrow> int \<Rightarrow> 'v match_state \<Rightarrow> string \<Rightarrow> error + 'v match_state"
where
  "match_line float_of vocab emb_dim st line =
     (case split_sep (CHR '' '') (strip line) of
        [] \<Rightarrow> Inl IndexError
      | w # ems \<Rightarrow>
          (case those (map float_of ems) of
             None \<Rightarrow>
               (case vec st of
                  None \<Rightarrow> Inl UnboundLocalError
                | Some _ \<Rightarrow> Inr (st\<lparr>printed := printed st @ [line]\<rparr>))
           | Some v \<Rightarrow>
               (let st = st\<lparr>vec := Some v\<rparr> in
                if int (length v) \<noteq> emb_dim then Inr (st\<lparr>printed := printed st @ [line]\<rparr>)
                else case stoi vocab w of
                       Some w_id \<Rightarrow> assign_vec st w_id v
                     | None \<Rightarrow>
                         (case stoi vocab (lower w) of
                            Some w_id \<Rightarrow> assign_vec_if_new st w_id v
                          | None \<Rightarrow>
                              (case stoi vocab (upper w) of
                                 Some w_id \<Rightarrow> assign_vec_if_new st w_id v
                               | None \<Rightarrow> Inr st)))))"

fun match_lines ::
  "(string \<Rightarrow> 'v option) \<Rightarrow> vocab \<Rightarrow> int \<Rightarrow> 'v match_state \<Rightarrow> string list \<Rightarrow> error + 'v match_state"
where
  "match_lines float_of vocab emb_dim st [] = Inr st"
| "match_lines float_of vocab emb_dim st (line # rest) =
     (case match_line float_of vocab emb_dim st line of
        Inl e \<Rightarrow> Inl e
      | Inr st' \<Rightarrow> match_lines float_of vocab emb_dim st' rest)"

text \<open>
  \<open>match_embeddings\<close>. \<open>init\<close> is the matrix \<open>np.random.uniform\<close> returns, of
  \<open>len(vocab)\<close> rows; \<open>emb_file\<close> is the list of the file's lines. The result is the
  matrix with the counts \<open>count['match']\<close> and \<open>count['miss']\<close>.
\<close>

definition match_embeddings ::
  "(string \<Rightarrow> 'v option) \<Rightarrow> 'v list list \<Rightarrow> vocab \<Rightarrow> int \<Rightarrow> string list
     \<Rightarrow> error + ('v list list \<times> nat \<times> int)"
where
  "match_embeddings float_of init vocab emb_dim emb_file =
     (let st = \<lparr>filtered_embeddings = init, done_flag = replicate (len vocab) 0,
                 vec = None, printed = []\<rparr>
      in case match_lines float_of vocab emb_dim st emb_file of
           Inl e \<Rightarrow> Inl e
         | Inr st' \<Rightarrow>
             (let match = sum_list (done_flag st')
              in Inr (filtered_embeddings st', match, int (len vocab) - int match)))"

text \<open>
  The example of the specification: the vocabulary, the two lines of the file (each
  with its end of line), a conversion of the four fields and a starting matrix.
\<close>

definition example_vocab :: vocab where
  "example_vocab = \<lparr>stoi = map_of [(''Apple'', 0), (''table'', 1), (''UNK'', 2)], len = 3\<rparr>"

definition example_file :: "string list" where
  "example_file = [''apple 0.1 0.2'' @ [CHR 0x0A], ''TABLE 0.3 0.4'' @ [CHR 0x0A]]"

definition example_float :: "string \<Rightarrow> real option" where
  "example_float = map_of [(''0.1'', 1 / 10), (''0.2'', 2 / 10), (''0.3'', 3 / 10), (''0.4'', 4 / 10)]"

definition example_init :: "real list list" where
  "example_init = [[7, 7], [8, 8], [9, 9]]"

section \<open>The decoder state: \<open>RNNDecoderState\<close> and \<open>DecoderState.beam_update\<close>\<close>

text \<open>
  The state tensors have shape \<open>[layers, batch, dim]\<close>: a list over the layers of rows,
  a row being the list over the batch of the vectors along the last axis. \<open>hidden\<close> is
  the tuple of the recurrent state's components, \<open>input_feed\<close> has one layer.
\<close>

record 'a RNNDecoderState =
  hidden :: "'a tensor list"
  input_feed :: "'a tensor"
  coverage :: "'a tensor option"

text \<open>The property \<open>_all\<close>: \<open>self.hidden + (self.input_feed,)\<close>.\<close>

definition all_tensors :: "'a RNNDecoderState \<Rightarrow> 'a tensor list" where
  "all_tensors s = hidden s @ [input_feed s]"

text \<open>
  \<open>e.view(a, beam_size, n, d)[:, :, idx]\<close> with \<open>n = br // beam_size\<close>, for one layer:
  entry \<open>k\<close> of the view is the batch entry \<open>k * n + idx\<close> of the layer's row.
\<close>

definition sent_states :: "'a list \<Rightarrow> nat \<Rightarrow> nat \<Rightarrow> nat \<Rightarrow> 'a list" where
  "sent_states row beam_size n idx = map (\<lambda>k. row ! (k * n + idx)) [0..<beam_size]"

text \<open>
  \<open>sent_states.data.copy_(new)\<close>: the view shares the storage of \<open>e\<close>, so the copy
  writes entry \<open>k\<close> of \<open>new\<close> to the batch entry \<open>k * n + idx\<close> of the row.
\<close>

definition copy_sent_states :: "'a list \<Rightarrow> nat \<Rightarrow> nat \<Rightarrow> 'a list \<Rightarrow> 'a list" where
  "copy_sent_states row n idx new = fold (\<lambda>k r. r[k * n + idx := new ! k]) [0..<length new] row"

text \<open>
  The body of the loop of \<open>beam_update\<close> for one tensor \<open>e\<close>. \<open>br // beam_size\<close> raises
  for a beam size of zero; the view raises unless \<open>beam_size * (br // beam_size) = br\<close>;
  \<open>[:, :, idx]\<close> raises for \<open>idx\<close> out of range; \<open>index_select(1, positions)\<close> raises for
  a position that is not below \<open>beam_size\<close>, and makes a new tensor, so the copy reads the
  old values; \<open>copy_\<close> raises when the sizes differ. \<open>idx\<close> and \<open>positions\<close> are taken
  non-negative, as the beam search passes them.
\<close>

definition beam_update_tensor :: "'a tensor \<Rightarrow> nat \<Rightarrow> nat list \<Rightarrow> nat \<Rightarrow> error + 'a tensor" where
  "beam_update_tensor e idx positions beam_size =
     (let br = size1 e in
      if beam_size = 0 then Inl ZeroDivisionError
      else let n = br div beam_size in
        if beam_size * n \<noteq> br then Inl RuntimeError
        else if \<not> idx < n then Inl IndexError
        else if \<not> list_all (\<lambda>p. p < beam_size) positions then Inl RuntimeError
        else if length positions \<noteq> beam_size then Inl RuntimeError
        else Inr (map (\<lambda>row.
                    copy_sent_states row n idx
                      (map (\<lambda>p. sent_states row beam_size n idx ! p) positions)) e))"

text \<open>
  \<open>beam_update\<close>: the loop \<open>for e in self._all\<close> over the components of \<open>hidden\<close> and
  then \<open>input_feed\<close>, each updated in place; the state is returned updated.
\<close>

definition beam_update ::
  "'a RNNDecoderState \<Rightarrow> nat \<Rightarrow> nat list \<Rightarrow> nat \<Rightarrow> error + 'a RNNDecoderState"
where
  "beam_update s idx positions beam_size =
     (case comprehension (\<lambda>e. beam_update_tensor e idx positions beam_size) (hidden s) of
        Inl err \<Rightarrow> Inl err
      | Inr hs \<Rightarrow>
          (case beam_update_tensor (input_feed s) idx positions beam_size of
             Inl err \<Rightarrow> Inl err
           | Inr f \<Rightarrow> Inr (s\<lparr>hidden := hs, input_feed := f\<rparr>)))"

section \<open>Sorting the answers by length and restoring the batch order\<close>

text \<open>
  \<open>torch.sort(xs, dim=0, descending=d)\<close> of a one-dimensional tensor: the sorted values
  and the index in \<open>xs\<close> of each. The library leaves the order of equal values open; the
  model sorts stably ascending and reverses the result for a descending sort.
\<close>

definition torch_sort :: "bool \<Rightarrow> 'a::linorder list \<Rightarrow> 'a list \<times> nat list" where
  "torch_sort descending xs =
     (let ascending = sort_key fst (zip xs [0..<length xs]);
          ps = (if descending then rev ascending else ascending)
      in (map fst ps, map snd ps))"

text \<open>\<open>t.index_select(1, idx)\<close> along the batch axis; an index out of range raises.\<close>

definition index_select1 :: "'a tensor \<Rightarrow> nat list \<Rightarrow> error + 'a tensor" where
  "index_select1 t idx =
     (if list_all (\<lambda>row. list_all (\<lambda>j. j < length row) idx) t
      then Inr (map (\<lambda>row. map (\<lambda>j. row ! j) idx) t)
      else Inl RuntimeError)"

text \<open>
  The answer encoding of \<open>MatchRNNEncoder.forward\<close> (the same text in
  \<open>PyBiRNNEncoder3.forward\<close>): sort the answers by descending length, run the recurrent
  network, undo the sort on its outputs and on its final hidden and cell state.
  \<open>ans_bi_rnn\<close> stands for \<open>pack\<close>, the recurrent module and \<open>unpack(...)[0]\<close>: from the
  sorted embeddings and the sorted lengths to the padded outputs and the pair
  \<open>(h, c)\<close>, or an exception.
\<close>

definition encode_answer ::
  "('a tensor \<Rightarrow> int list \<Rightarrow> error + ('b tensor \<times> 'h tensor \<times> 'h tensor))
     \<Rightarrow> 'a tensor \<Rightarrow> int list \<Rightarrow> error + ('b tensor \<times> 'h tensor \<times> 'h tensor)"
where
  "encode_answer ans_bi_rnn ans_emb ans_lengths =
     (let sorted_ans_lengths = fst (torch_sort True ans_lengths);
          idx_sort = snd (torch_sort True ans_lengths);
          idx_unsort = snd (torch_sort False idx_sort)
      in
      (case index_select1 ans_emb idx_sort of Inl e \<Rightarrow> Inl e | Inr ans_emb_sorted \<Rightarrow>
      (case ans_bi_rnn ans_emb_sorted sorted_ans_lengths of Inl e \<Rightarrow> Inl e | Inr (ans_outputs, h, c) \<Rightarrow>
      (case index_select1 ans_outputs idx_unsort of Inl e \<Rightarrow> Inl e | Inr ans_outputs' \<Rightarrow>
      (case index_select1 h idx_unsort of Inl e \<Rightarrow> Inl e | Inr h' \<Rightarrow>
      (case index_select1 c idx_unsort of Inl e \<Rightarrow> Inl e | Inr c' \<Rightarrow>
         Inr (ans_outputs', h', c')))))))"

section \<open>The match-attention encoder: \<open>MatchRNNEncoder.forward\<close>\<close>













text \<open>
  The modules \<open>MatchRNNEncoder.__init__\<close> builds, each as the function it computes.
  A recurrent module stands for \<open>pack\<close>, the module and \<open>unpack(...)[0]\<close>: from the padded
  input and the lengths to the padded outputs and the final state \<open>(h, c)\<close>, each of
  shape \<open>[2, batch]\<close> (one layer, two directions), or an exception. \<open>fc1\<close> is the linear
  layer on one vector.
\<close>

record MatchRNNEncoder =
  embeddings :: "int list tensor \<Rightarrow> real list tensor"
  bi_rnn1 :: "real list tensor \<Rightarrow> int list
                \<Rightarrow> error + (real list tensor \<times> real list tensor \<times> real list tensor)"
  bi_rnn2 :: "real list tensor \<Rightarrow> int list
                \<Rightarrow> error + (real list tensor \<times> real list tensor \<times> real list tensor)"
  ans_bi_rnn :: "real list tensor \<Rightarrow> int list
                \<Rightarrow> error + (real list tensor \<times> real list tensor \<times> real list tensor)"
  fc1 :: "real list \<Rightarrow> real list"
  dropout :: "real list tensor \<Rightarrow> real list tensor"








section \<open>The decoders and the top-level models\<close>

text \<open>
  A target tensor \<open>[tgt_len, batch, nfeats]\<close> is the list over time of its rows, a row
  being the list over the batch of the tokens. The vectors of the network are lists of
  reals. The attention dictionary is the list of its items in insertion order.
\<close>

type_synonym vec = "real list"

type_synonym attns = "(string \<times> vec tensor) list"

datatype decoder_class = StdRNNDecoder | InputFeedRNNDecoder

text \<open>
  The attributes of a decoder (\<open>RNNDecoderBase.__init__\<close>), its modules as the functions
  they compute. \<open>copy_flag\<close> and \<open>coverage_flag\<close> are \<open>self._copy\<close> and \<open>self._coverage\<close>.
  \<open>tgt_embeddings\<close> embeds the row of one time step. \<open>rnn\<close> is the recurrent module of
  the standard decoder on the whole sequence and \<open>rnn_cell\<close> the stacked cell of the
  input-feeding decoder on one step; \<open>attn\<close> is the global attention on the whole
  sequence and \<open>attn_step\<close> the same module on one step. \<open>context_gate\<close> and \<open>dropout\<close>
  act on the vectors of one position.
\<close>

record ('tok, 'c, 'l) RNNDecoder =
  decoder_class :: decoder_class
  bidirectional_encoder :: bool
  hidden_size :: nat
  copy_flag :: bool
  coverage_flag :: bool
  tgt_embeddings :: "'tok list \<Rightarrow> vec list"
  rnn :: "vec tensor \<Rightarrow> vec tensor list \<Rightarrow> vec tensor \<times> vec tensor list"
  rnn_cell :: "vec list \<Rightarrow> vec tensor list \<Rightarrow> vec list \<times> vec tensor list"
  attn :: "vec tensor \<Rightarrow> 'c tensor \<Rightarrow> 'l \<Rightarrow> vec tensor \<times> vec tensor"
  attn_step :: "vec list \<Rightarrow> 'c tensor \<Rightarrow> 'l \<Rightarrow> vec list \<times> vec list"
  copy_attn :: "vec list \<Rightarrow> 'c tensor \<Rightarrow> vec list \<times> vec list"
  context_gate :: "(vec \<Rightarrow> vec \<Rightarrow> vec \<Rightarrow> vec) option"
  decoder_dropout :: "vec \<Rightarrow> vec"

text \<open>
  \<open>RNNDecoderBase._fix_enc_hidden\<close>: for a bidirectional encoder
  \<open>torch.cat([h[0:h.size(0):2], h[1:h.size(0):2]], 2)\<close>, the layers of even index beside
  those of odd index, which must be as many.
\<close>

fun evens :: "'a list \<Rightarrow> 'a list" where
  "evens [] = []"
| "evens [x] = [x]"
| "evens (x # y # xs) = x # evens xs"

fun odds :: "'a list \<Rightarrow> 'a list" where
  "odds [] = []"
| "odds [x] = []"
| "odds (x # y # xs) = y # odds xs"

definition fix_enc_hidden :: "('tok, 'c, 'l) RNNDecoder \<Rightarrow> vec tensor \<Rightarrow> error + vec tensor" where
  "fix_enc_hidden d h =
     (if bidirectional_encoder d
      then (if length (evens h) = length (odds h)
            then Inr (map2 (map2 (@)) (evens h) (odds h))
            else Inl RuntimeError)
      else Inr h)"

text \<open>
  \<open>RNNDecoderBase.init_decoder_state\<close> with \<open>RNNDecoderState.__init__\<close>: the fixed
  components of the encoder state (one component for a GRU), a zero input feed of shape
  \<open>[1, batch, hidden_size]\<close> with the batch size of the context, no coverage.
\<close>

definition init_decoder_state ::
  "('tok, 'c, 'l) RNNDecoder \<Rightarrow> 'c tensor \<Rightarrow> vec tensor list \<Rightarrow> error + vec RNNDecoderState"
where
  "init_decoder_state d context enc_hidden =
     (case comprehension (fix_enc_hidden d) enc_hidden of
        Inl e \<Rightarrow> Inl e
      | Inr rnnstate \<Rightarrow>
          Inr \<lparr>hidden = rnnstate,
               input_feed = [replicate (size1 context) (replicate (hidden_size d) 0)],
               coverage = None\<rparr>)"

text \<open>
  The output of one position: the context gate when there is one, then the dropout.
\<close>

definition gate_and_dropout ::
  "('tok, 'c, 'l) RNNDecoder \<Rightarrow> vec list \<Rightarrow> vec list \<Rightarrow> vec list \<Rightarrow> vec list"
where
  "gate_and_dropout d emb_t rnn_output attn_output =
     (case context_gate d of
        None \<Rightarrow> map (decoder_dropout d) attn_output
      | Some gate \<Rightarrow>
          map (decoder_dropout d)
            (map (\<lambda>(e, r, a). gate e r a) (zip emb_t (zip rnn_output attn_output))))"

text \<open>
  \<open>StdRNNDecoder._run_forward_pass\<close>: the whole sequence at once. The result is
  \<open>(hidden, outputs, attns, coverage)\<close>.
\<close>

definition std_run_forward_pass ::
  "('tok, 'c, 'l) RNNDecoder \<Rightarrow> 'tok tensor \<Rightarrow> 'c tensor \<Rightarrow> vec RNNDecoderState \<Rightarrow> 'l
     \<Rightarrow> error + (vec tensor list \<times> vec tensor \<times> attns \<times> vec list option)"
where
  "std_run_forward_pass d input context state context_lengths =
     (if copy_flag d then Inl AssertionError
      else if coverage_flag d then Inl AssertionError
      else
        (let emb = map (tgt_embeddings d) input;
             rnn_output = fst (rnn d emb (hidden state));
             hidden' = snd (rnn d emb (hidden state))
         in if length input \<noteq> length rnn_output then Inl AssertionError
            else if size1 input \<noteq> size1 rnn_output then Inl AssertionError
            else
              (let attn_outputs = fst (attn d rnn_output context context_lengths);
                   attn_scores = snd (attn d rnn_output context context_lengths);
                   outputs = map (\<lambda>(e, r, a). gate_and_dropout d e r a)
                               (zip emb (zip rnn_output attn_outputs))
               in Inr (hidden', outputs, [(''std'', attn_scores)], None))))"

text \<open>
  The variables of the loop of \<open>InputFeedRNNDecoder._run_forward_pass\<close>: the three lists
  of the attention dictionary are kept apart and put together after the loop.
\<close>

record feed_state =
  fs_hidden :: "vec tensor list"
  fs_output :: "vec list"
  fs_coverage :: "vec list option"
  fs_outputs :: "vec tensor"
  fs_std :: "vec tensor"
  fs_copy :: "vec tensor"
  fs_cov :: "vec tensor"

text \<open>One iteration of \<open>for i, emb_t in enumerate(emb.split(1))\<close>.\<close>

definition input_feed_step ::
  "('tok, 'c, 'l) RNNDecoder \<Rightarrow> 'c tensor \<Rightarrow> 'l \<Rightarrow> feed_state \<Rightarrow> vec list \<Rightarrow> feed_state"
where
  "input_feed_step d context context_lengths st emb_t =
     (let emb_t = map2 (@) emb_t (fs_output st);
          rnn_output = fst (rnn_cell d emb_t (fs_hidden st));
          hidden' = snd (rnn_cell d emb_t (fs_hidden st));
          attn_output = fst (attn_step d rnn_output context context_lengths);
          attn_t = snd (attn_step d rnn_output context context_lengths);
          output = gate_and_dropout d emb_t rnn_output attn_output;
          coverage_t = (case fs_coverage st of
                          None \<Rightarrow> attn_t
                        | Some cov \<Rightarrow> map2 (map2 (+)) cov attn_t)
      in \<lparr>fs_hidden = hidden',
          fs_output = output,
          fs_coverage = (if coverage_flag d then Some coverage_t else fs_coverage st),
          fs_outputs = fs_outputs st @ [output],
          fs_std = fs_std st @ [attn_t],
          fs_copy = (if copy_flag d then fs_copy st @ [snd (copy_attn d output context)]
                     else fs_copy st),
          fs_cov = (if coverage_flag d then fs_cov st @ [coverage_t]
                    else fs_cov st)\<rparr>)"

text \<open>
  \<open>InputFeedRNNDecoder._run_forward_pass\<close>. \<open>state.input_feed.squeeze(0)\<close> must be a
  matrix whose batch size is that of the input. The coverage of a state has shape
  \<open>[1, batch, src_len]\<close>, as \<open>update_state\<close> is given it; a coverage of another shape
  is outside the model and is read as no coverage.
\<close>

definition input_feed_run_forward_pass ::
  "('tok, 'c, 'l) RNNDecoder \<Rightarrow> 'tok tensor \<Rightarrow> 'c tensor \<Rightarrow> vec RNNDecoderState \<Rightarrow> 'l
     \<Rightarrow> error + (vec tensor list \<times> vec tensor \<times> attns \<times> vec list option)"
where
  "input_feed_run_forward_pass d input context state context_lengths =
     (case input_feed state of
        [output] \<Rightarrow>
          (if size1 input \<noteq> length output then Inl AssertionError
           else
             (let emb = map (tgt_embeddings d) input;
                  st0 = \<lparr>fs_hidden = hidden state, fs_output = output,
                         fs_coverage = (case coverage state of
                                          None \<Rightarrow> None
                                        | Some cov \<Rightarrow> (case cov of [c] \<Rightarrow> Some c | _ \<Rightarrow> None)),
                         fs_outputs = [], fs_std = [], fs_copy = [], fs_cov = []\<rparr>;
                  st = fold (\<lambda>emb_t st. input_feed_step d context context_lengths st emb_t) emb st0
              in Inr (fs_hidden st, fs_outputs st,
                      [(''std'', fs_std st)] @
                      (if copy_flag d then [(''copy'', fs_copy st)] else []) @
                      (if coverage_flag d then [(''coverage'', fs_cov st)] else []),
                      fs_coverage st)))
      | _ \<Rightarrow> Inl ValueError)"

text \<open>
  \<open>RNNDecoderBase.forward\<close>: the batch sizes of the input and the context must agree;
  \<open>outputs[-1]\<close> raises when there is no output; \<open>torch.stack\<close> of an empty list raises.
  The state is returned updated by \<open>update_state\<close>.
\<close>

definition RNNDecoderBase_forward ::
  "('tok, 'c, 'l) RNNDecoder \<Rightarrow> 'tok tensor \<Rightarrow> 'c tensor \<Rightarrow> vec RNNDecoderState \<Rightarrow> 'l
     \<Rightarrow> error + (vec tensor \<times> vec RNNDecoderState \<times> attns)"
where
  "RNNDecoderBase_forward d input context state context_lengths =
     (if size1 input \<noteq> size1 context then Inl AssertionError
      else
        (case (case decoder_class d of
                 StdRNNDecoder \<Rightarrow> std_run_forward_pass d input context state context_lengths
               | InputFeedRNNDecoder \<Rightarrow>
                   input_feed_run_forward_pass d input context state context_lengths) of
           Inl e \<Rightarrow> Inl e
         | Inr (hidden', outputs, attns, coverage') \<Rightarrow>
             (if outputs = [] then Inl IndexError
              else
                (let final_output = last outputs;
                     state' = state\<lparr>hidden := hidden',
                                    input_feed := [final_output],
                                    coverage := map_option (\<lambda>c. [c]) coverage'\<rparr>
                 in if list_all (\<lambda>(k, a). a \<noteq> []) attns
                    then Inr (outputs, state', attns)
                    else Inl RuntimeError))))"

text \<open>
  \<open>tgt[:-1]\<close>. The tensor library of the source has no tensor with a dimension of size
  zero: a slice that would be empty raises.
\<close>

definition exclude_last :: "'a list \<Rightarrow> error + 'a list" where
  "exclude_last tgt = (if length tgt \<le> 1 then Inl ValueError else Inr (butlast tgt))"

text \<open>
  \<open>NMTModel.forward\<close>. The encoder is the function it computes, from the source and the
  lengths to the final state and the context, or an exception. The result is
  \<open>(out, attns, dec_state)\<close>, the last two \<open>None\<close> for \<open>multigpu\<close>.
\<close>

definition NMTModel_forward ::
  "('src \<Rightarrow> 'l \<Rightarrow> error + (vec tensor list \<times> 'c tensor)) \<Rightarrow> ('tok, 'c, 'l) RNNDecoder \<Rightarrow> bool
     \<Rightarrow> 'src \<Rightarrow> 'tok tensor \<Rightarrow> 'l \<Rightarrow> vec RNNDecoderState option
     \<Rightarrow> error + (vec tensor \<times> attns option \<times> vec RNNDecoderState option)"
where
  "NMTModel_forward encoder decoder multigpu src tgt lengths dec_state =
     (case exclude_last tgt of Inl e \<Rightarrow> Inl e | Inr tgt' \<Rightarrow>
     (case encoder src lengths of Inl e \<Rightarrow> Inl e | Inr (enc_hidden, context) \<Rightarrow>
     (case init_decoder_state decoder context enc_hidden of Inl e \<Rightarrow> Inl e | Inr enc_state \<Rightarrow>
     (case RNNDecoderBase_forward decoder tgt' context
             (case dec_state of None \<Rightarrow> enc_state | Some s \<Rightarrow> s) lengths of
        Inl e \<Rightarrow> Inl e
      | Inr (out, dec_state', attns) \<Rightarrow>
          (if multigpu then Inr (out, None, None)
           else Inr (out, Some attns, Some dec_state'))))))"






chapter \<open>Verification\<close>

section \<open>C1: the reversal routine\<close>


lemma length_idx_reversed:
  "0 \<le> l \<Longrightarrow> l \<le> int n \<Longrightarrow> length (idx_reversed l n) = n"
  by (simp add: idx_reversed_def)

lemma nth_idx_reversed:
  assumes "0 \<le> l" "l \<le> int n" "t < n"
  shows "idx_reversed l n ! t = (if int t < l then l - 1 - int t else int t)"
proof (cases "int t < l")
  case True
  then have "t < length (rev [0..l - 1])" using assms by simp
  then have "idx_reversed l n ! t = rev [0..l - 1] ! t"
    by (simp add: idx_reversed_def nth_append)
  also have "\<dots> = [0..l - 1] ! (length [0..l - 1] - Suc t)"
    using True assms by (subst rev_nth) simp_all
  also have "\<dots> = l - 1 - int t"
    using True assms by (subst nth_upto) (simp_all add: nat_diff_distrib)
  finally show ?thesis using True by simp
next
  case False
  then have ge: "nat l \<le> t" using assms by linarith
  then have "idx_reversed l n ! t = [l..int n - 1] ! (t - nat l)"
    using assms by (simp add: idx_reversed_def nth_append)
  also have "\<dots> = int t"
    using ge assms by (subst nth_upto) auto
  finally show ?thesis using False by simp
qed

lemma idx_reversed_in_range:
  assumes "0 \<le> l" "l \<le> int n"
  shows "list_all (\<lambda>j. 0 \<le> j \<and> j < int n) (idx_reversed l n)"
  using assms by (auto simp: idx_reversed_def list_all_iff)


lemma reverse_loop_cols:
  assumes "list_all (\<lambda>row. i + length ls \<le> length row) seq_data"
    and "list_all (\<lambda>l. 1 \<le> l \<and> l \<le> int (length seq_data)) ls"
  shows "reverse_loop seq_data i ls =
           Inr (map (\<lambda>(k, l). col_rev seq_data k l) (zip [i..<i + length ls] ls))"
  using assms
proof (induction ls arbitrary: i)
  case Nil
  then show ?case by simp
next
  case (Cons l ls)
  have l: "0 \<le> l" "l \<le> int (length seq_data)" using Cons.prems(2) by simp_all
  have col: "select_column seq_data i = Inr (map (\<lambda>row. row ! i) seq_data)"
    using Cons.prems(1) by (auto simp: select_column_def list_all_iff)
  have sel: "index_select0 (map (\<lambda>row. row ! i) seq_data) (idx_reversed l (length seq_data))
               = Inr (col_rev seq_data i l)"
    using idx_reversed_in_range [OF l]
    by (auto simp: index_select0_def col_rev_def list_all_iff)
  have rest: "reverse_loop seq_data (Suc i) ls =
           Inr (map (\<lambda>(k, l). col_rev seq_data k l) (zip [Suc i..<Suc i + length ls] ls))"
    using Cons.prems by (intro Cons.IH) (auto simp: list_all_iff)
  have up: "[i..<i + length (l # ls)] = i # [Suc i..<Suc i + length ls]"
    by (subst upt_rec) simp
  show ?case
    unfolding up using col sel rest length_idx_reversed [OF l] by simp
qed


lemma length_col_rev:
  "0 \<le> l \<Longrightarrow> l \<le> int (length seq_data) \<Longrightarrow> length (col_rev seq_data i l) = length seq_data"
  by (simp add: col_rev_def length_idx_reversed)

lemma nth_col_rev:
  assumes "0 \<le> l" "l \<le> int (length seq_data)" "t < length seq_data"
  shows "col_rev seq_data i l ! t =
           (if int t < l then seq_data ! (nat l - 1 - t) ! i else seq_data ! t ! i)"
proof -
  have "col_rev seq_data i l ! t = seq_data ! nat (idx_reversed l (length seq_data) ! t) ! i"
    using assms by (simp add: col_rev_def length_idx_reversed)
  moreover have "int t < l \<Longrightarrow> nat (l - 1 - int t) = nat l - 1 - t"
    by linarith
  ultimately show ?thesis
    using nth_idx_reversed [OF assms] by simp
qed

text \<open>
  Claim C1. For a batch whose true lengths all lie between 1 and the padded sequence
  length, \<open>reverse\<close> returns a tensor of the input's shape in which, for batch element
  \<open>i\<close> of length \<open>l\<close>, position \<open>t < l\<close> holds the input's position \<open>l - 1 - t\<close> and
  every position \<open>t \<ge> l\<close> holds the input's position \<open>t\<close>.
\<close>

theorem reverse_prefix_reversed:
  assumes batch: "list_all (\<lambda>row. length row = length lengths) seq_data"
    and nonempty: "lengths \<noteq> []"
    and valid: "list_all (\<lambda>l. 1 \<le> l \<and> l \<le> int (length seq_data)) lengths"
  shows "\<exists>out. reverse seq_data lengths = Inr out \<and>
           length out = length seq_data \<and>
           (\<forall>t < length seq_data. length (out ! t) = length lengths) \<and>
           (\<forall>i < length lengths. \<forall>t < length seq_data.
              (int t < lengths ! i \<longrightarrow> out ! t ! i = seq_data ! (nat (lengths ! i) - 1 - t) ! i) \<and>
              (lengths ! i \<le> int t \<longrightarrow> out ! t ! i = seq_data ! t ! i))"
proof -
  let ?n = "length seq_data"
  define cols where
    "cols = map (\<lambda>(k, l). col_rev seq_data k l) (zip [0..<0 + length lengths] lengths)"
  have loop: "reverse_loop seq_data 0 lengths = Inr cols"
    unfolding cols_def using batch valid
    by (intro reverse_loop_cols) (auto simp: list_all_iff)
  have bounds: "\<And>i. i < length lengths \<Longrightarrow> 0 \<le> lengths ! i \<and> lengths ! i \<le> int ?n"
    using valid by (fastforce simp: list_all_length)
  have len_cols: "length cols = length lengths" by (simp add: cols_def)
  have col: "\<And>i. i < length lengths \<Longrightarrow> cols ! i = col_rev seq_data i (lengths ! i)"
    by (simp add: cols_def)
  have len_col: "length c = ?n" if "c \<in> set cols" for c
  proof -
    from that obtain i where "i < length lengths" "c = cols ! i"
      unfolding in_set_conv_nth len_cols by blast
    then show ?thesis
      using col bounds length_col_rev by metis
  qed
  obtain c cs where split: "cols = c # cs"
    using nonempty len_cols by (cases cols) auto
  have c: "length c = ?n" using len_col split by simp
  have cs: "list_all (\<lambda>d. length d = length c) cs"
    using len_col split c by (auto simp: list_all_iff)
  define out where "out = map (\<lambda>t. map (\<lambda>d. d ! t) cols) [0..<?n]"
  have cat: "torch_cat1 cols = Inr out"
    unfolding torch_cat1_def out_def using split c cs by simp
  have res: "reverse seq_data lengths = Inr out"
    unfolding reverse_def loop using cat by simp
  have entry: "\<And>i t. i < length lengths \<Longrightarrow> t < ?n \<Longrightarrow>
                 out ! t ! i = col_rev seq_data i (lengths ! i) ! t"
    by (simp add: out_def len_cols col)
  have "\<forall>i < length lengths. \<forall>t < ?n.
          (int t < lengths ! i \<longrightarrow> out ! t ! i = seq_data ! (nat (lengths ! i) - 1 - t) ! i) \<and>
          (lengths ! i \<le> int t \<longrightarrow> out ! t ! i = seq_data ! t ! i)"
  proof (intro allI impI)
    fix i t assume i: "i < length lengths" and t: "t < ?n"
    have b: "0 \<le> lengths ! i" "lengths ! i \<le> int ?n" using bounds [OF i] by simp_all
    show "(int t < lengths ! i \<longrightarrow> out ! t ! i = seq_data ! (nat (lengths ! i) - 1 - t) ! i) \<and>
          (lengths ! i \<le> int t \<longrightarrow> out ! t ! i = seq_data ! t ! i)"
      unfolding entry [OF i t] nth_col_rev [OF b t] by simp
  qed
  moreover have "length out = ?n" by (simp add: out_def)
  moreover have "\<forall>t < ?n. length (out ! t) = length lengths"
    by (simp add: out_def len_cols)
  ultimately show ?thesis using res by blast
qed

theorem reverse_prefix_reversed_witness:
  "\<exists>out. reverse [[1, 2], [3, 4], [5, 6::nat]] [3, 2] = Inr out \<and>
     out ! 0 ! 0 = 5 \<and> out ! 2 ! 0 = 1 \<and> out ! 0 ! 1 = 4 \<and> out ! 2 ! 1 = 6"
proof -
  let ?x = "[[1, 2], [3, 4], [5, 6::nat]]"
  have h1: "list_all (\<lambda>row. length row = length [3, 2::int]) ?x" by simp
  have h2: "[3, 2::int] \<noteq> []" by simp
  have h3: "list_all (\<lambda>l. 1 \<le> l \<and> l \<le> int (length ?x)) [3, 2]" by simp
  from reverse_prefix_reversed [OF h1 h2 h3] obtain out
    where r: "reverse ?x [3, 2] = Inr out"
      and e: "\<forall>i < length [3, 2::int]. \<forall>t < length ?x.
              (int t < [3, 2] ! i \<longrightarrow> out ! t ! i = ?x ! (nat ([3, 2] ! i) - 1 - t) ! i) \<and>
              ([3, 2] ! i \<le> int t \<longrightarrow> out ! t ! i = ?x ! t ! i)"
    by blast
  have "out ! 0 ! 0 = 5" using e [rule_format, of 0 0] by simp
  moreover have "out ! 2 ! 0 = 1" using e [rule_format, of 0 2] by simp
  moreover have "out ! 0 ! 1 = 4" using e [rule_format, of 1 0] by simp
  moreover have "out ! 2 ! 1 = 6" using e [rule_format, of 1 2] by simp
  ultimately show ?thesis using r by blast
qed

section \<open>C3 and C7: the answer-span locator\<close>

lemma upt_split3:
  assumes "s \<le> e" "e \<le> n"
  shows "[0..<n] = [0..<s] @ [s..<e] @ [e..<n]"
proof -
  have "[0..<n] = [0..<e] @ [e..<n]"
    using assms(2) upt_add_eq_append [of 0 e "n - e"] by simp
  moreover have "[0..<e] = [0..<s] @ [s..<e]"
    using assms(1) upt_add_eq_append [of 0 s "e - s"] by simp
  ultimately show ?thesis by simp
qed

lemma nonzero_run:
  assumes "s < e" "e \<le> length col" "\<forall>t < length col. col ! t \<longleftrightarrow> s \<le> t \<and> t < e"
  shows "nonzero col = [s..<e]"
proof -
  let ?n = "length col"
  have split: "[0..<?n] = [0..<s] @ [s..<e] @ [e..<?n]"
    using assms(1,2) by (intro upt_split3) simp_all
  have low: "filter (\<lambda>k. col ! k) [0..<s] = []"
    using assms by (simp add: filter_empty_conv)
  have mid: "filter (\<lambda>k. col ! k) [s..<e] = [s..<e]"
    using assms by (simp add: filter_id_conv)
  have high: "filter (\<lambda>k. col ! k) [e..<?n] = []"
    using assms by (simp add: filter_empty_conv)
  show ?thesis
    unfolding nonzero_def by (subst split) (simp only: filter_append low mid high append_Nil append_Nil2)
qed

lemma ans_posi_column_run:
  assumes "s < e" "e \<le> length col" "\<forall>t < length col. col ! t \<longleftrightarrow> s \<le> t \<and> t < e"
  shows "ans_posi_column col = Inr [s, e]"
proof -
  have nz: "nonzero col = [s..<e]" using nonzero_run [OF assms] .
  have hd: "[s..<e] = s # [Suc s..<e]" using assms(1) by (simp add: upt_rec)
  have "last (s # [Suc s..<e]) = e - 1"
    using assms(1) unfolding hd [symmetric] by (simp add: last_upt)
  then show ?thesis
    unfolding ans_posi_column_def nz hd using assms(1) by simp
qed

lemma ans_posi_column_empty:
  assumes "\<forall>t < length col. \<not> col ! t"
  shows "ans_posi_column col = Inl IndexError"
proof -
  have "nonzero col = []"
    using assms by (simp add: nonzero_def filter_empty_conv)
  then show ?thesis by (simp add: ans_posi_column_def)
qed

lemma ans_posi_column_cases:
  "ans_posi_column col = Inl IndexError \<or> (\<exists>s e. ans_posi_column col = Inr [s, e])"
  by (cases "nonzero col") (simp_all add: ans_posi_column_def)

lemma comprehension_map:
  assumes "\<And>x. x \<in> set xs \<Longrightarrow> f x = Inr (g x)"
  shows "comprehension f xs = Inr (map g xs)"
  using assms
proof (induction xs)
  case Nil
  then show ?case by simp
next
  case (Cons x xs)
  have "f x = Inr (g x)" using Cons.prems [of x] by simp
  moreover have "comprehension f xs = Inr (map g xs)"
  proof (rule Cons.IH)
    fix y assume "y \<in> set xs"
    then show "f y = Inr (g y)" using Cons.prems [of y] by simp
  qed
  ultimately show ?case by simp
qed

lemma comprehension_error:
  assumes "x \<in> set xs" "f x = Inl e"
    and "\<And>y e'. y \<in> set xs \<Longrightarrow> f y = Inl e' \<Longrightarrow> e' = e"
  shows "comprehension f xs = Inl e"
  using assms
proof (induction xs)
  case Nil
  then show ?case by simp
next
  case (Cons y ys)
  show ?case
  proof (cases "f y")
    case (Inl e')
    then have "e' = e" using Cons.prems(3) [of y e'] by simp
    then show ?thesis using Inl by simp
  next
    case (Inr v)
    then have "x \<noteq> y" using Cons.prems(2) by auto
    then have mem: "x \<in> set ys" using Cons.prems(1) by simp
    have "comprehension f ys = Inl e"
    proof (rule Cons.IH [OF mem Cons.prems(2)])
      fix z e' assume "z \<in> set ys" "f z = Inl e'"
      then show "e' = e" using Cons.prems(3) [of z e'] by simp
    qed
    then show ?thesis using Inr by simp
  qed
qed


lemma size1_rect:
  "t \<noteq> [] \<Longrightarrow> list_all (\<lambda>row. length row = B) t \<Longrightarrow> size1 t = B"
  by (cases t) (simp_all add: size1_def)

lemma is_ans_column:
  assumes "list_all (\<lambda>row. length row = B) is_ans_feature" "i < B"
  shows "select_column (map (map (\<lambda>v. v = (3::int))) is_ans_feature) i =
           Inr (map (\<lambda>row. row ! i = 3) is_ans_feature)"
  using assms by (auto simp: select_column_def list_all_iff)

lemma torch_stack1_pairs:
  assumes "0 < B"
  shows "torch_stack1 (map (\<lambda>i. [s i, e i]) [0..<B]) = Inr [map s [0..<B], map e [0..<B]]"
proof -
  have "[0..<B] = 0 # [Suc 0..<B]" using assms by (simp add: upt_rec)
  then obtain c cs where split: "map (\<lambda>i. [s i, e i]) [0..<B] = c # cs" and c: "c = [s 0, e 0]"
    by simp
  have cs: "list_all (\<lambda>d. length d = length c) cs"
  proof -
    have "\<forall>d \<in> set (map (\<lambda>i. [s i, e i]) [0..<B]). length d = 2" by auto
    then show ?thesis unfolding split c by (simp add: list_all_iff)
  qed
  have "torch_cat1 (c # cs) = Inr (map (\<lambda>t. map (\<lambda>d. d ! t) (c # cs)) [0..<length c])"
    using cs by (simp add: torch_cat1_def)
  also have "[0..<length c] = [0, 1]" by (simp add: c upt_rec)
  finally show ?thesis
    unfolding torch_stack1_def split [symmetric] by (simp add: comp_def)
qed

text \<open>
  Claim C3. When the indicator tensor is rectangular with a non-empty batch and the
  positions of batch element \<open>i\<close> that carry the value 3 are exactly the non-empty run
  \<open>s i \<le> t < e i\<close>, \<open>get_ans_posi\<close> returns the tensor of shape \<open>[2, batch]\<close> whose
  column \<open>i\<close> is \<open>(s i, e i)\<close>: the first marked position and one past the last.
\<close>

theorem get_ans_posi_run:
  assumes nonempty: "is_ans_feature \<noteq> []" and batch: "0 < B"
    and rect: "list_all (\<lambda>row. length row = B) is_ans_feature"
    and run: "\<forall>i < B. s i < e i \<and> e i \<le> length is_ans_feature \<and>
               (\<forall>t < length is_ans_feature. is_ans_feature ! t ! i = 3 \<longleftrightarrow> s i \<le> t \<and> t < e i)"
  shows "get_ans_posi is_ans_feature = Inr [map s [0..<B], map e [0..<B]]"
proof -
  let ?is_ans = "map (map (\<lambda>v. v = (3::int))) is_ans_feature"
  let ?f = "\<lambda>i. case select_column ?is_ans i of Inl e \<Rightarrow> Inl e | Inr col \<Rightarrow> ans_posi_column col"
  have size: "size1 ?is_ans = B"
    using nonempty rect by (intro size1_rect) (auto simp: list_all_iff)
  have col: "?f i = Inr [s i, e i]" if "i < B" for i
  proof -
    have "ans_posi_column (map (\<lambda>row. row ! i = 3) is_ans_feature) = Inr [s i, e i]"
      using run that by (intro ans_posi_column_run) auto
    then show ?thesis using is_ans_column [OF rect that] by simp
  qed
  have "comprehension ?f [0..<B] = Inr (map (\<lambda>i. [s i, e i]) [0..<B])"
    using col by (intro comprehension_map) simp
  then show ?thesis
    unfolding get_ans_posi_def Let_def size using torch_stack1_pairs [OF batch, of s e] by simp
qed

theorem get_ans_posi_run_witness:
  "get_ans_posi [[0, 3], [3, 3], [3, 0], [0, 0]] = Inr [[1, 0], [3, 2]]"
proof -
  let ?x = "[[0, 3], [3, 3], [3, 0], [0, 0::int]]"
  let ?s = "\<lambda>i::nat. if i = 0 then 1 else (0::nat)"
  let ?e = "\<lambda>i::nat. if i = 0 then 3 else (2::nat)"
  have h1: "?x \<noteq> []" by simp
  have h2: "0 < (2::nat)" by simp
  have h3: "list_all (\<lambda>row. length row = 2) ?x" by simp
  have h4: "\<forall>i < 2. ?s i < ?e i \<and> ?e i \<le> length ?x \<and>
               (\<forall>t < length ?x. ?x ! t ! i = 3 \<longleftrightarrow> ?s i \<le> t \<and> t < ?e i)"
    by (simp add: eval_nat_numeral All_less_Suc)
  have "[0..<2] = [0, Suc 0]" by (simp add: upt_rec)
  then show ?thesis
    using get_ans_posi_run [OF h1 h2 h3 h4] by simp
qed

text \<open>
  Claim C7, as amended. When some batch element has no position that carries the value
  3, \<open>get_ans_posi\<close> returns no interval for it: indexing the empty result of
  \<open>nonzero\<close> raises, and the whole call fails.
\<close>

theorem get_ans_posi_empty_run_raises:
  assumes nonempty: "is_ans_feature \<noteq> []"
    and rect: "list_all (\<lambda>row. length row = B) is_ans_feature"
    and i: "i < B"
    and empty: "\<forall>t < length is_ans_feature. is_ans_feature ! t ! i \<noteq> 3"
  shows "get_ans_posi is_ans_feature = Inl IndexError"
proof -
  let ?is_ans = "map (map (\<lambda>v. v = (3::int))) is_ans_feature"
  let ?f = "\<lambda>i. case select_column ?is_ans i of Inl e \<Rightarrow> Inl e | Inr col \<Rightarrow> ans_posi_column col"
  have size: "size1 ?is_ans = B"
    using nonempty rect by (intro size1_rect) (auto simp: list_all_iff)
  have "ans_posi_column (map (\<lambda>row. row ! i = 3) is_ans_feature) = Inl IndexError"
    using empty by (intro ans_posi_column_empty) simp
  then have fi: "?f i = Inl IndexError" using is_ans_column [OF rect i] by simp
  have only: "e' = IndexError" if "?f y = Inl e'" for y e'
  proof (cases "select_column ?is_ans y")
    case (Inl e)
    then show ?thesis using that by (auto simp: select_column_def split: if_splits)
  next
    case (Inr col)
    then show ?thesis using that ans_posi_column_cases [of col] by auto
  qed
  have "comprehension ?f [0..<B] = Inl IndexError"
    using i fi only by (intro comprehension_error [of i]) auto
  then show ?thesis
    unfolding get_ans_posi_def Let_def size by simp
qed

theorem get_ans_posi_empty_run_raises_witness:
  "get_ans_posi [[3, 0], [3, 0]] = Inl IndexError"
proof -
  have h1: "[[3, 0], [3, 0::int]] \<noteq> []" by simp
  have h2: "list_all (\<lambda>row. length row = 2) [[3, 0], [3, 0::int]]" by simp
  have h3: "(1::nat) < 2" by simp
  have h4: "\<forall>t < length [[3, 0], [3, 0::int]]. [[3, 0], [3, 0::int]] ! t ! 1 \<noteq> 3"
    by (simp add: eval_nat_numeral All_less_Suc)
  show ?thesis using get_ans_posi_empty_run_raises [OF h1 h2 h3 h4] .
qed

text \<open>
  The claim as stated fails: one batch element, two positions, none marked.
\<close>

theorem get_ans_posi_empty_run_counterexample:
  "get_ans_posi [[0], [0]] = Inl IndexError"
  by code_simp

section \<open>C6 and C8: embedding matching\<close>

lemma example_line1:
  "split_sep (CHR '' '') (strip (''apple 0.1 0.2'' @ [CHR 0x0A])) = [''apple'', ''0.1'', ''0.2'']"
  by code_simp

lemma example_line2:
  "split_sep (CHR '' '') (strip (''TABLE 0.3 0.4'' @ [CHR 0x0A])) = [''TABLE'', ''0.3'', ''0.4'']"
  by code_simp

lemma example_lookups:
  "stoi example_vocab ''apple'' = None"
  "stoi example_vocab (lower ''apple'') = None"
  "stoi example_vocab (upper ''apple'') = None"
  "stoi example_vocab ''TABLE'' = None"
  "stoi example_vocab (lower ''TABLE'') = Some 1"
  "len example_vocab = 3"
  by code_simp+

text \<open>
  Claim C6, as amended. On the example of the specification, whatever the four fields
  convert to and whatever the starting matrix of three rows is, the first line
  \<open>apple 0.1 0.2\<close> matches nothing (\<open>apple\<close>, its lower case \<open>apple\<close> and its upper case
  \<open>APPLE\<close> are not keys of the vocabulary, whose key is \<open>Apple\<close>), the second line
  assigns its vector to index 1 through the lower-case fallback, and the counts are
  match = 1 and miss = 2; indices 0 and 2 keep their starting vectors.
\<close>

theorem match_embeddings_example:
  assumes f1: "float_of ''0.1'' = Some a" and f2: "float_of ''0.2'' = Some b"
    and f3: "float_of ''0.3'' = Some c" and f4: "float_of ''0.4'' = Some d"
    and init: "length init = 3"
  shows "match_embeddings float_of init example_vocab 2 example_file =
           Inr (init[1 := [c, d]], 1, 2)"
proof -
  let ?st0 = "\<lparr>filtered_embeddings = init, done_flag = replicate (len example_vocab) 0,
                vec = None, printed = []\<rparr>"
  let ?st1 = "?st0\<lparr>vec := Some [a, b]\<rparr>"
  let ?st2 = "\<lparr>filtered_embeddings = init[1 := [c, d]], done_flag = [0, 1, 0],
                vec = Some [c, d], printed = []\<rparr>"
  have l1: "match_line float_of example_vocab 2 ?st0 (''apple 0.1 0.2'' @ [CHR 0x0A]) = Inr ?st1"
    unfolding match_line_def example_line1 by (simp add: f1 f2 example_lookups)
  have l2: "match_line float_of example_vocab 2 ?st1 (''TABLE 0.3 0.4'' @ [CHR 0x0A]) = Inr ?st2"
    unfolding match_line_def example_line2
    by (simp add: f3 f4 example_lookups assign_vec_if_new_def assign_vec_def init
        eval_nat_numeral)
  have "match_lines float_of example_vocab 2 ?st0 example_file = Inr ?st2"
    unfolding example_file_def by (simp only: match_lines.simps l1 l2 sum.case)
  then show ?thesis
    unfolding match_embeddings_def Let_def by (simp add: example_lookups)
qed

theorem match_embeddings_example_witness:
  "match_embeddings example_float example_init example_vocab 2 example_file =
     Inr (example_init[1 := [3 / 10, 4 / 10]], 1, 2)"
proof -
  have "example_float ''0.1'' = Some (1 / 10)" "example_float ''0.2'' = Some (2 / 10)"
    "example_float ''0.3'' = Some (3 / 10)" "example_float ''0.4'' = Some (4 / 10)"
    "length example_init = 3"
    by (simp_all add: example_float_def example_init_def)
  then show ?thesis by (rule match_embeddings_example)
qed

text \<open>
  The claim as stated fails on the example: index 0 keeps its starting vector and the
  counts are not match = 2, miss = 1.
\<close>

theorem match_embeddings_example_counterexample:
  "match_embeddings example_float example_init example_vocab 2 example_file =
     Inr ([[7, 7], [3 / 10, 4 / 10], [9, 9]], 1, 2) \<and>
   match_embeddings example_float example_init example_vocab 2 example_file \<noteq>
     Inr ([[1 / 10, 2 / 10], [3 / 10, 4 / 10], [9, 9]], 2, 1)"
  by code_simp

lemma match_line_wrong_dimension:
  assumes "split_sep (CHR '' '') (strip line) = w # ems"
    and "those (map float_of ems) = Some v" and "int (length v) \<noteq> emb_dim"
  shows "match_line float_of vocab emb_dim st line =
           Inr (st\<lparr>vec := Some v, printed := printed st @ [line]\<rparr>)"
  using assms by (simp add: match_line_def)

lemma match_line_not_numeric_bound:
  assumes "split_sep (CHR '' '') (strip line) = w # ems"
    and "those (map float_of ems) = None" and "vec st = Some v"
  shows "match_line float_of vocab emb_dim st line = Inr (st\<lparr>printed := printed st @ [line]\<rparr>)"
  using assms by (simp add: match_line_def)

lemma match_line_not_numeric_unbound:
  assumes "split_sep (CHR '' '') (strip line) = w # ems"
    and "those (map float_of ems) = None" and "vec st = None"
  shows "match_line float_of vocab emb_dim st line = Inl UnboundLocalError"
  using assms by (simp add: match_line_def)

text \<open>
  Claim C8: every malformed line of the embedding file (a vector of the wrong size, or
  a field that is not a number) is skipped with a printed warning, the matrix and the
  flags unchanged, and the pass continues. The lemmas above show this for a line of the
  wrong size, and for a line with a field that is not a number once \<open>vec\<close> is bound.
  The code breaks the claim on a file whose first line has a field that is not a
  number: the handler evaluates \<open>len(vec)\<close> before \<open>vec\<close> was ever bound, and the
  exception it raises ends the whole matching pass instead of skipping the line.
\<close>

theorem match_embeddings_first_line_not_numeric:
  "match_embeddings example_float example_init example_vocab 2
     [''apple x 0.2'' @ [CHR 0x0A], ''TABLE 0.3 0.4'' @ [CHR 0x0A]] = Inl UnboundLocalError"
  by code_simp

section \<open>C9: the beam update of the decoder state\<close>

lemma fold_update_length:
  "length (fold (\<lambda>k r. r[g k := h k]) ks row) = length row"
  by (induction ks arbitrary: row) simp_all

lemma fold_update_nth:
  assumes idx: "idx < n" and j: "j < length row" and m: "m * n \<le> length row"
  shows "fold (\<lambda>k r. r[k * n + idx := new ! k]) [0..<m] row ! j =
           (if j mod n = idx \<and> j div n < m then new ! (j div n) else row ! j)"
  using m
proof (induction m)
  case 0
  then show ?case by simp
next
  case (Suc m)
  let ?f = "\<lambda>k r. r[k * n + idx := new ! k]"
  let ?r = "fold ?f [0..<m] row"
  have len: "length ?r = length row" by (rule fold_update_length)
  have IH: "?r ! j = (if j mod n = idx \<and> j div n < m then new ! (j div n) else row ! j)"
    using Suc by simp
  have step: "fold ?f [0..<Suc m] row = ?r[m * n + idx := new ! m]" by simp
  have pos: "m * n + idx < length row" using Suc.prems idx by simp
  show ?case
  proof (cases "j = m * n + idx")
    case True
    then have "j mod n = idx" "j div n = m" using idx by simp_all
    then show ?thesis unfolding step using True pos len by simp
  next
    case False
    have "\<not> (j mod n = idx \<and> j div n = m)"
    proof
      assume "j mod n = idx \<and> j div n = m"
      then have "j = m * n + idx" using div_mult_mod_eq [of j n] by simp
      then show False using False by simp
    qed
    then have "(j mod n = idx \<and> j div n < Suc m) = (j mod n = idx \<and> j div n < m)"
      by (auto simp: less_Suc_eq)
    then show ?thesis unfolding step using False IH by simp
  qed
qed


lemma copy_sent_states_nth:
  assumes "idx < n" "length row = beam_size * n" "length positions = beam_size"
    and "list_all (\<lambda>p. p < beam_size) positions" and "j < length row"
  shows "copy_sent_states row n idx (map (\<lambda>p. sent_states row beam_size n idx ! p) positions) ! j =
           (if j mod n = idx then row ! (positions ! (j div n) * n + idx) else row ! j)"
proof -
  let ?new = "map (\<lambda>p. sent_states row beam_size n idx ! p) positions"
  have n: "0 < n" using assms(1) by simp
  have k: "j div n < beam_size"
    using assms(2,5) n by (simp add: less_mult_imp_div_less mult.commute)
  have "copy_sent_states row n idx ?new ! j =
          (if j mod n = idx \<and> j div n < beam_size then ?new ! (j div n) else row ! j)"
    unfolding copy_sent_states_def
    using fold_update_nth [OF assms(1) assms(5), of beam_size ?new] assms(2,3) by simp
  moreover have "?new ! (j div n) = row ! (positions ! (j div n) * n + idx)"
  proof -
    have "positions ! (j div n) < beam_size"
      using assms(3,4) k by (simp add: list_all_length)
    then show ?thesis using k assms(3) by (simp add: sent_states_def)
  qed
  ultimately show ?thesis using k by simp
qed

lemma copy_sent_states_length:
  "length (copy_sent_states row n idx new) = length row"
  unfolding copy_sent_states_def by (rule fold_update_length)

lemma beam_update_tensor_ok:
  assumes beam: "0 < beam_size" and ne: "e \<noteq> []"
    and rect: "list_all (\<lambda>row. length row = br) e"
    and dvd: "br mod beam_size = 0" and idx: "idx < br div beam_size"
    and len: "length positions = beam_size"
    and pos: "list_all (\<lambda>p. p < beam_size) positions"
  shows "\<exists>e'. beam_update_tensor e idx positions beam_size = Inr e' \<and>
           length e' = length e \<and>
           (\<forall>l < length e. length (e' ! l) = br \<and>
              (\<forall>j < br. e' ! l ! j =
                 (if j mod (br div beam_size) = idx
                  then e ! l ! (positions ! (j div (br div beam_size)) * (br div beam_size) + idx)
                  else e ! l ! j)))"
proof -
  let ?n = "br div beam_size"
  let ?e' = "map (\<lambda>row. copy_sent_states row ?n idx
                 (map (\<lambda>p. sent_states row beam_size ?n idx ! p) positions)) e"
  have size: "size1 e = br" using ne rect by (cases e) (simp_all add: size1_def)
  have prod: "beam_size * ?n = br" using dvd mult_div_mod_eq [of beam_size br] by simp
  have res: "beam_update_tensor e idx positions beam_size = Inr ?e'"
    unfolding beam_update_tensor_def Let_def size using beam prod idx len pos by simp
  have "length (?e' ! l) = br \<and>
          (\<forall>j < br. ?e' ! l ! j =
             (if j mod ?n = idx then e ! l ! (positions ! (j div ?n) * ?n + idx) else e ! l ! j))"
    if l: "l < length e" for l
  proof -
    have row: "length (e ! l) = beam_size * ?n"
      using rect l prod by (simp add: list_all_length)
    have "\<forall>j < br. ?e' ! l ! j =
             (if j mod ?n = idx then e ! l ! (positions ! (j div ?n) * ?n + idx) else e ! l ! j)"
    proof (intro allI impI)
      fix j assume "j < br"
      then have "j < length (e ! l)" using row prod by simp
      from copy_sent_states_nth [OF idx row len pos this]
      show "?e' ! l ! j =
             (if j mod ?n = idx then e ! l ! (positions ! (j div ?n) * ?n + idx) else e ! l ! j)"
        using l by simp
    qed
    moreover have "length (?e' ! l) = br"
      using l row prod by (simp add: copy_sent_states_length)
    ultimately show ?thesis by simp
  qed
  then show ?thesis using res by simp
qed


text \<open>
  Claim C9. For a state whose tensors all have batch dimension \<open>br\<close>, a beam size that
  divides \<open>br\<close>, a sentence index \<open>idx\<close> below \<open>br div beam_size\<close> and \<open>beam_size\<close> positions
  below \<open>beam_size\<close>, \<open>beam_update\<close> returns the state in which, in every hidden component
  and in the input feed, the batch entries \<open>j\<close> of sentence \<open>idx\<close> (those with
  \<open>j mod (br div beam_size) = idx\<close>, beam \<open>j div (br div beam_size)\<close>) hold the old entry of
  the beam that \<open>positions\<close> selects, and every other entry is unchanged; the shapes and
  the coverage are unchanged.
\<close>

theorem beam_update_frame:
  assumes beam: "0 < beam_size"
    and shape: "list_all (\<lambda>e. e \<noteq> [] \<and> list_all (\<lambda>row. length row = br) e) (all_tensors s)"
    and dvd: "br mod beam_size = 0" and idx: "idx < br div beam_size"
    and len: "length positions = beam_size"
    and pos: "list_all (\<lambda>p. p < beam_size) positions"
  shows "\<exists>s'. beam_update s idx positions beam_size = Inr s' \<and>
           coverage s' = coverage s \<and>
           length (all_tensors s') = length (all_tensors s) \<and>
           (\<forall>q < length (all_tensors s).
              length (all_tensors s' ! q) = length (all_tensors s ! q) \<and>
              (\<forall>l < length (all_tensors s ! q).
                 length (all_tensors s' ! q ! l) = br \<and>
                 (\<forall>j < br. all_tensors s' ! q ! l ! j =
                    (if j mod (br div beam_size) = idx
                     then all_tensors s ! q ! l !
                            (positions ! (j div (br div beam_size)) * (br div beam_size) + idx)
                     else all_tensors s ! q ! l ! j))))"
proof -
  let ?n = "br div beam_size"
  let ?f = "\<lambda>e. beam_update_tensor e idx positions beam_size"
  let ?g = "\<lambda>e. projr (?f e)"
  define R where "R e e' \<longleftrightarrow> length e' = length e \<and>
           (\<forall>l < length e. length (e' ! l) = br \<and>
              (\<forall>j < br. e' ! l ! j =
                 (if j mod ?n = idx then e ! l ! (positions ! (j div ?n) * ?n + idx)
                  else e ! l ! j)))" for e e' :: "'a tensor"
  have each: "?f e = Inr (?g e) \<and> R e (?g e)" if "e \<in> set (all_tensors s)" for e
  proof -
    have "e \<noteq> []" "list_all (\<lambda>row. length row = br) e"
      using shape that by (auto simp: list_all_iff)
    from beam_update_tensor_ok [OF beam this dvd idx len pos]
    show ?thesis unfolding R_def by auto
  qed
  have hs: "comprehension ?f (hidden s) = Inr (map ?g (hidden s))"
    using each by (intro comprehension_map) (simp add: all_tensors_def)
  obtain fnew where fd: "?f (input_feed s) = Inr fnew"
    using each [of "input_feed s"] by (auto simp: all_tensors_def)
  then have fnew: "fnew = ?g (input_feed s)" by simp
  define s' where "s' = s\<lparr>hidden := map ?g (hidden s), input_feed := fnew\<rparr>"
  have res: "beam_update s idx positions beam_size = Inr s'"
    unfolding beam_update_def s'_def hs fd by simp
  have all': "all_tensors s' = map ?g (all_tensors s)"
    by (simp add: all_tensors_def s'_def fnew)
  have cov: "coverage s' = coverage s" by (simp add: s'_def)
  have rel: "R (all_tensors s ! q) (all_tensors s' ! q)" if "q < length (all_tensors s)" for q
    using each [of "all_tensors s ! q"] that unfolding all' by simp
  show ?thesis
  proof (intro exI conjI allI impI)
    show "beam_update s idx positions beam_size = Inr s'" by (rule res)
    show "coverage s' = coverage s" by (rule cov)
    show "length (all_tensors s') = length (all_tensors s)" by (simp add: all')
  next
    fix q assume q: "q < length (all_tensors s)"
    show "length (all_tensors s' ! q) = length (all_tensors s ! q)"
      using rel [OF q] unfolding R_def by simp
  next
    fix q l assume q: "q < length (all_tensors s)" and l: "l < length (all_tensors s ! q)"
    show "length (all_tensors s' ! q ! l) = br"
      using rel [OF q] l unfolding R_def by simp
  next
    fix q l j
    assume q: "q < length (all_tensors s)" and l: "l < length (all_tensors s ! q)"
      and j: "j < br"
    show "all_tensors s' ! q ! l ! j =
            (if j mod ?n = idx
             then all_tensors s ! q ! l ! (positions ! (j div ?n) * ?n + idx)
             else all_tensors s ! q ! l ! j)"
      using rel [OF q] l j unfolding R_def by simp
  qed
qed

theorem beam_update_frame_witness:
  "\<exists>s'. beam_update \<lparr>hidden = [[[10, 11, 12, 13, 14, 15::nat]]],
                        input_feed = [[0, 1, 2, 3, 4, 5]], coverage = None\<rparr> 1 [2, 2, 0] 3 = Inr s' \<and>
        all_tensors s' ! 0 ! 0 ! 0 = 10 \<and> all_tensors s' ! 0 ! 0 ! 1 = 15 \<and>
        all_tensors s' ! 1 ! 0 ! 5 = 1 \<and> all_tensors s' ! 1 ! 0 ! 4 = 4"
proof -
  let ?s = "\<lparr>hidden = [[[10, 11, 12, 13, 14, 15::nat]]], input_feed = [[0, 1, 2, 3, 4, 5]],
              coverage = None\<rparr>"
  have h1: "0 < (3::nat)" by simp
  have h2: "list_all (\<lambda>e. e \<noteq> [] \<and> list_all (\<lambda>row. length row = 6) e) (all_tensors ?s)"
    by (simp add: all_tensors_def)
  have h3: "(6::nat) mod 3 = 0" by simp
  have h4: "(1::nat) < 6 div 3" by simp
  have h5: "length [2, 2, 0::nat] = 3" by simp
  have h6: "list_all (\<lambda>p. p < 3) [2, 2, 0::nat]" by simp
  from beam_update_frame [OF h1 h2 h3 h4 h5 h6] obtain s'
    where r: "beam_update ?s 1 [2, 2, 0] 3 = Inr s'"
      and e: "\<forall>q < length (all_tensors ?s).
              length (all_tensors s' ! q) = length (all_tensors ?s ! q) \<and>
              (\<forall>l < length (all_tensors ?s ! q).
                 length (all_tensors s' ! q ! l) = 6 \<and>
                 (\<forall>j < 6. all_tensors s' ! q ! l ! j =
                    (if j mod (6 div 3) = 1
                     then all_tensors ?s ! q ! l ! ([2, 2, 0] ! (j div (6 div 3)) * (6 div 3) + 1)
                     else all_tensors ?s ! q ! l ! j)))"
    by blast
  have at: "all_tensors ?s = [[[10, 11, 12, 13, 14, 15]], [[0, 1, 2, 3, 4, 5]]]"
    by (simp add: all_tensors_def)
  note e' = e [unfolded at]
  have "all_tensors s' ! 0 ! 0 ! 0 = 10" using e' by simp
  moreover have "all_tensors s' ! 0 ! 0 ! 1 = 15" using e' by simp
  moreover have "all_tensors s' ! 1 ! 0 ! 5 = 1" using e' by simp
  moreover have "all_tensors s' ! 1 ! 0 ! 4 = 4" using e' by simp
  ultimately show ?thesis using r by blast
qed

section \<open>C2: sorting by length and restoring the batch order\<close>

lemma idx_sort_perm:
  "mset (snd (torch_sort d xs)) = mset [0..<length xs]"
proof -
  let ?zs = "zip xs [0..<length xs]"
  have zs: "map snd ?zs = [0..<length xs]" by simp
  have asc: "mset (map snd (sort_key fst ?zs)) = mset (map snd ?zs)"
    by (simp only: mset_map mset_sort)
  have desc: "mset (map snd (rev (sort_key fst ?zs))) = mset (map snd ?zs)"
    by (simp only: mset_map mset_rev mset_sort)
  show ?thesis
    unfolding torch_sort_def Let_def using asc desc by (cases d) (simp_all only: zs snd_conv if_True if_False)
qed

lemma perm_upt_props:
  assumes "mset p = mset [0..<n]"
  shows "length p = n" "distinct p" "set p = {0..<n}"
proof -
  show "length p = n" using assms by (metis length_upt mset_eq_length minus_nat.diff_0)
  show "distinct p" using assms by (metis distinct_upt mset_eq_imp_distinct_iff)
  show "set p = {0..<n}" using assms by (metis mset_eq_setD set_upt)
qed


lemma unsort_inverse:
  assumes perm: "mset p = mset [0..<n]"
  defines "q \<equiv> snd (torch_sort False p)"
  shows "length q = n" and "\<And>k. k < n \<Longrightarrow> q ! k < n \<and> p ! (q ! k) = k"
proof -
  let ?zs = "zip p [0..<length p]"
  let ?ps = "sort_key fst ?zs"
  have len: "length p = n" using perm_upt_props(1) [OF perm] .
  have q: "q = map snd ?ps" by (simp add: q_def torch_sort_def Let_def)
  have lps: "length ?ps = n" using len by simp
  show "length q = n" using q lps by simp
  have "mset (map fst ?ps) = mset (map fst ?zs)" by (simp only: mset_map mset_sort)
  also have "map fst ?zs = p" by simp
  finally have vals: "mset (map fst ?ps) = mset [0..<n]" using perm by simp
  have "sorted (map fst ?ps)" by (rule sorted_sort_key)
  moreover have "distinct (map fst ?ps)" "set (map fst ?ps) = set [0..<n]"
    using perm_upt_props(2,3) [OF vals] by simp_all
  ultimately have fst_ps: "map fst ?ps = [0..<n]"
    by (intro sorted_distinct_set_unique) simp_all
  fix k assume k: "k < n"
  have "?ps ! k \<in> set ?ps" using k lps by (intro nth_mem) simp
  then have "?ps ! k \<in> set ?zs" by simp
  then obtain i where i: "i < length p" "?ps ! k = (p ! i, i)"
    by (auto simp: set_zip)
  have "fst (?ps ! k) = k"
    using fst_ps k lps by (metis add_0 length_map nth_map nth_upt)
  then have "p ! i = k" using i by simp
  moreover have "q ! k = i" using q i k lps by simp
  ultimately show "q ! k < n \<and> p ! (q ! k) = k" using i len by simp
qed

lemma unsort_inverse':
  assumes perm: "mset p = mset [0..<n]" and k: "k < n"
  shows "snd (torch_sort False p) ! (p ! k) = k"
proof -
  let ?q = "snd (torch_sort False p)"
  have props: "length p = n" "distinct p" "set p = {0..<n}"
    using perm_upt_props [OF perm] by simp_all
  have pk: "p ! k < n" using props k by (metis atLeastLessThan_iff nth_mem)
  have "?q ! (p ! k) < n" "p ! (?q ! (p ! k)) = p ! k"
    using unsort_inverse(2) [OF perm pk] by simp_all
  then show ?thesis
    using props k by (simp add: nth_eq_iff_index_eq)
qed

lemma index_select1_ok:
  assumes "list_all (\<lambda>row. length row = n) t" "list_all (\<lambda>j. j < n) idx"
  shows "index_select1 t idx = Inr (map (\<lambda>row. map (\<lambda>j. row ! j) idx) t)"
  using assms by (auto simp: index_select1_def list_all_iff)

lemma select_select:
  assumes t: "list_all (\<lambda>row. length row = n) t"
    and a: "length a = n" "list_all (\<lambda>j. j < n) a"
    and b: "length b = n" "\<And>k. k < n \<Longrightarrow> b ! k < n \<and> a ! (b ! k) = k"
  shows "map (\<lambda>row. map (\<lambda>j. row ! j) b) (map (\<lambda>row. map (\<lambda>j. row ! j) a) t) = t"
proof -
  have "map (\<lambda>j. map (\<lambda>i. row ! i) a ! j) b = row" if "row \<in> set t" for row
  proof (rule nth_equalityI)
    have lr: "length row = n" using t that by (simp add: list_all_iff)
    show "length (map (\<lambda>j. map (\<lambda>i. row ! i) a ! j) b) = length row"
      using lr b(1) by simp
    fix k assume "k < length (map (\<lambda>j. map (\<lambda>i. row ! i) a ! j) b)"
    then have k: "k < n" using b(1) by simp
    then show "map (\<lambda>j. map (\<lambda>i. row ! i) a ! j) b ! k = row ! k"
      using b a(1) by simp
  qed
  then show ?thesis by (simp add: map_idI)
qed


lemma sort_unsort_select:
  fixes ans_lengths :: "'a::linorder list"
  assumes srt: "torch_sort True ans_lengths = (sorted_ans_lengths, idx_sort)"
    and unsrt: "torch_sort False idx_sort = (ignored, idx_unsort)"
    and x: "list_all (\<lambda>row. length row = length ans_lengths) x"
  shows "index_select1 x idx_sort = Inr (map (\<lambda>row. map (\<lambda>j. row ! j) idx_sort) x)"
    and "index_select1 x idx_unsort = Inr (map (\<lambda>row. map (\<lambda>j. row ! j) idx_unsort) x)"
    and "map (\<lambda>row. map (\<lambda>j. row ! j) idx_unsort) (map (\<lambda>row. map (\<lambda>j. row ! j) idx_sort) x) = x"
    and "map (\<lambda>row. map (\<lambda>j. row ! j) idx_sort) (map (\<lambda>row. map (\<lambda>j. row ! j) idx_unsort) x) = x"
proof -
  let ?n = "length ans_lengths"
  have p: "idx_sort = snd (torch_sort True ans_lengths)" using srt by simp
  have q: "idx_unsort = snd (torch_sort False idx_sort)" using unsrt by simp
  have perm: "mset idx_sort = mset [0..<?n]" unfolding p by (rule idx_sort_perm)
  have pp: "length idx_sort = ?n" "distinct idx_sort" "set idx_sort = {0..<?n}"
    using perm_upt_props [OF perm] by simp_all
  have p_lt: "list_all (\<lambda>j. j < ?n) idx_sort" using pp(3) by (simp add: list_all_iff)
  have q_len: "length idx_unsort = ?n" unfolding q by (rule unsort_inverse(1) [OF perm])
  have q_inv: "idx_unsort ! k < ?n \<and> idx_sort ! (idx_unsort ! k) = k" if "k < ?n" for k
    unfolding q using unsort_inverse(2) [OF perm that] .
  have q_lt: "list_all (\<lambda>j. j < ?n) idx_unsort"
    using q_len q_inv by (simp add: list_all_length)
  have p_inv: "idx_sort ! k < ?n \<and> idx_unsort ! (idx_sort ! k) = k" if "k < ?n" for k
  proof -
    have "idx_sort ! k < ?n" using p_lt pp(1) that by (simp add: list_all_length)
    moreover have "idx_unsort ! (idx_sort ! k) = k"
      unfolding q using unsort_inverse' [OF perm that] .
    ultimately show ?thesis by simp
  qed
  show "index_select1 x idx_sort = Inr (map (\<lambda>row. map (\<lambda>j. row ! j) idx_sort) x)"
    using x p_lt by (rule index_select1_ok)
  show "index_select1 x idx_unsort = Inr (map (\<lambda>row. map (\<lambda>j. row ! j) idx_unsort) x)"
    using x q_lt by (rule index_select1_ok)
  show "map (\<lambda>row. map (\<lambda>j. row ! j) idx_unsort) (map (\<lambda>row. map (\<lambda>j. row ! j) idx_sort) x) = x"
    using x pp(1) p_lt q_len q_inv by (rule select_select)
  show "map (\<lambda>row. map (\<lambda>j. row ! j) idx_sort) (map (\<lambda>row. map (\<lambda>j. row ! j) idx_unsort) x) = x"
    using x q_len q_lt pp(1) p_inv by (rule select_select)
qed

lemma select_rect:
  "list_all (\<lambda>row. length row = length idx) (map (\<lambda>row. map (\<lambda>j. row ! j) idx) x)"
  by (simp add: list_all_iff)

lemma unsort_then_sort:
  fixes ans_lengths :: "'a::linorder list"
  assumes srt: "torch_sort True ans_lengths = (sorted_ans_lengths, idx_sort)"
    and unsrt: "torch_sort False idx_sort = (ignored, idx_unsort)"
    and t: "list_all (\<lambda>row. length row = length ans_lengths) t"
  shows "index_select1 t idx_unsort = Inr (map (\<lambda>row. map (\<lambda>j. row ! j) idx_unsort) t) \<and>
         index_select1 (map (\<lambda>row. map (\<lambda>j. row ! j) idx_unsort) t) idx_sort = Inr t"
proof -
  let ?t' = "map (\<lambda>row. map (\<lambda>j. row ! j) idx_unsort) t"
  have lq: "length idx_unsort = length ans_lengths"
    using unsort_inverse(1) [OF idx_sort_perm [of True ans_lengths]] srt unsrt by simp
  have t': "list_all (\<lambda>row. length row = length ans_lengths) ?t'"
    using select_rect [of idx_unsort t] lq by simp
  show ?thesis
    using sort_unsort_select(2) [OF srt unsrt t] sort_unsort_select(1) [OF srt unsrt t']
      sort_unsort_select(4) [OF srt unsrt t]
    by simp
qed

text \<open>
  Claim C2. Let \<open>idx_sort\<close> be the indices of the descending sort of the answer lengths
  and \<open>idx_unsort\<close> the indices of the ascending sort of \<open>idx_sort\<close>. Selecting the batch
  entries of any tensor of that batch size by \<open>idx_sort\<close> and then by \<open>idx_unsort\<close> gives
  the tensor back. When the recurrent network returns outputs and a final hidden and
  cell state of that batch size for the sorted answers, \<open>encode_answer\<close> returns each of
  the three selected by \<open>idx_unsort\<close>, and selecting what it returns by \<open>idx_sort\<close> gives the
  network's own results back: entry \<open>k\<close> of the sorted batch is put back at the batch
  position \<open>idx_sort ! k\<close> it was taken from.
\<close>

theorem sort_unsort_restores_batch_order:
  fixes ans_lengths :: "int list"
  assumes srt: "torch_sort True ans_lengths = (sorted_ans_lengths, idx_sort)"
    and unsrt: "torch_sort False idx_sort = (ignored, idx_unsort)"
    and emb: "list_all (\<lambda>row. length row = length ans_lengths) ans_emb"
    and sorted: "index_select1 ans_emb idx_sort = Inr sorted_emb"
    and rnn: "ans_rnn sorted_emb sorted_ans_lengths = Inr (ans_outputs, h, c)"
    and outs: "list_all (\<lambda>row. length row = length ans_lengths) ans_outputs"
    and h: "list_all (\<lambda>row. length row = length ans_lengths) h"
    and c: "list_all (\<lambda>row. length row = length ans_lengths) c"
  shows "(\<forall>x :: 'x tensor. list_all (\<lambda>row. length row = length ans_lengths) x \<longrightarrow>
            (\<exists>y. index_select1 x idx_sort = Inr y \<and> index_select1 y idx_unsort = Inr x)) \<and>
         (\<exists>ans_outputs' h' c'.
            encode_answer ans_rnn ans_emb ans_lengths = Inr (ans_outputs', h', c') \<and>
            index_select1 ans_outputs idx_unsort = Inr ans_outputs' \<and>
            index_select1 h idx_unsort = Inr h' \<and>
            index_select1 c idx_unsort = Inr c' \<and>
            index_select1 ans_outputs' idx_sort = Inr ans_outputs \<and>
            index_select1 h' idx_sort = Inr h \<and>
            index_select1 c' idx_sort = Inr c)"
proof
  have lp: "length idx_sort = length ans_lengths"
    using perm_upt_props(1) [OF idx_sort_perm [of True ans_lengths]] srt by simp
  note restore = unsort_then_sort [OF srt unsrt]
  show "\<forall>x :: 'x tensor. list_all (\<lambda>row. length row = length ans_lengths) x \<longrightarrow>
            (\<exists>y. index_select1 x idx_sort = Inr y \<and> index_select1 y idx_unsort = Inr x)"
  proof (intro allI impI)
    fix x :: "'x tensor"
    assume x: "list_all (\<lambda>row. length row = length ans_lengths) x"
    let ?y = "map (\<lambda>row. map (\<lambda>j. row ! j) idx_sort) x"
    have y: "list_all (\<lambda>row. length row = length ans_lengths) ?y"
      using select_rect [of idx_sort x] lp by simp
    have "index_select1 x idx_sort = Inr ?y"
      using sort_unsort_select(1) [OF srt unsrt x] .
    moreover have "index_select1 ?y idx_unsort = Inr x"
      using sort_unsort_select(2) [OF srt unsrt y] sort_unsort_select(3) [OF srt unsrt x]
      by simp
    ultimately show "\<exists>y. index_select1 x idx_sort = Inr y \<and> index_select1 y idx_unsort = Inr x"
      by blast
  qed
  let ?sorted = "map (\<lambda>row. map (\<lambda>j. row ! j) idx_sort) ans_emb"
  have sel: "index_select1 ans_emb idx_sort = Inr ?sorted"
    using sort_unsort_select(1) [OF srt unsrt emb] .
  have run: "ans_rnn ?sorted sorted_ans_lengths = Inr (ans_outputs, h, c)"
    using rnn sel sorted by simp
  have "encode_answer ans_rnn ans_emb ans_lengths =
          Inr (map (\<lambda>row. map (\<lambda>j. row ! j) idx_unsort) ans_outputs,
               map (\<lambda>row. map (\<lambda>j. row ! j) idx_unsort) h,
               map (\<lambda>row. map (\<lambda>j. row ! j) idx_unsort) c)"
    unfolding encode_answer_def Let_def
    using sel run restore [OF outs] restore [OF h] restore [OF c] by (simp add: srt unsrt)
  then show "\<exists>ans_outputs' h' c'.
            encode_answer ans_rnn ans_emb ans_lengths = Inr (ans_outputs', h', c') \<and>
            index_select1 ans_outputs idx_unsort = Inr ans_outputs' \<and>
            index_select1 h idx_unsort = Inr h' \<and>
            index_select1 c idx_unsort = Inr c' \<and>
            index_select1 ans_outputs' idx_sort = Inr ans_outputs \<and>
            index_select1 h' idx_sort = Inr h \<and>
            index_select1 c' idx_sort = Inr c"
    using restore [OF outs] restore [OF h] restore [OF c] by blast
qed


theorem sort_unsort_restores_batch_order_witness:
  "encode_answer (\<lambda>x l. Inr (x, x, x)) [[10, 11, 12, 13], [20, 21, 22, 23::nat]] [2, 5, 3, 5] =
     Inr ([[10, 11, 12, 13], [20, 21, 22, 23]], [[10, 11, 12, 13], [20, 21, 22, 23]],
          [[10, 11, 12, 13], [20, 21, 22, 23]])"
proof -
  let ?emb = "[[10, 11, 12, 13], [20, 21, 22, 23::nat]]"
  let ?out = "[[13, 11, 12, 10], [23, 21, 22, 20::nat]]"
  let ?rnn = "\<lambda>(x :: nat tensor) (l :: int list). (Inr (x, x, x) :: error + _)"
  have srt: "torch_sort True [2, 5, 3, 5::int] = ([5, 5, 3, 2], [3, 1, 2, 0])" by code_simp
  have unsrt: "torch_sort False [3, 1, 2, 0::nat] = ([0, 1, 2, 3], [3, 1, 2, 0])" by code_simp
  have emb: "list_all (\<lambda>row. length row = length [2, 5, 3, 5::int]) ?emb" by simp
  have sorted: "index_select1 ?emb [3, 1, 2, 0] = Inr ?out"
    by (simp add: index_select1_def)
  have rnn: "?rnn ?out [5, 5, 3, 2] = Inr (?out, ?out, ?out)" by simp
  have out: "list_all (\<lambda>row. length row = length [2, 5, 3, 5::int]) ?out" by simp
  from sort_unsort_restores_batch_order [where ans_rnn = ?rnn, OF srt unsrt emb sorted rnn out out out, THEN conjunct2]
  obtain outputs' h' c'
    where r: "encode_answer ?rnn ?emb [2, 5, 3, 5] = Inr (outputs', h', c')"
      and "index_select1 ?out [3, 1, 2, 0] = Inr outputs'"
      and "index_select1 ?out [3, 1, 2, 0] = Inr h'"
      and "index_select1 ?out [3, 1, 2, 0] = Inr c'"
    by blast
  then have "outputs' = ?emb" "h' = ?emb" "c' = ?emb"
    by (simp_all add: index_select1_def)
  then show ?thesis using r by simp
qed

section \<open>C4: the match layer\<close>













section \<open>C5: the final hidden state of the match-attention encoder\<close>









section \<open>C10: the forward pass of the top-level models\<close>

lemma input_feed_fold_lengths:
  "length (fs_outputs (fold (\<lambda>emb_t st. input_feed_step d context lens st emb_t) emb st0)) =
     length (fs_outputs st0) + length emb \<and>
   length (fs_std (fold (\<lambda>emb_t st. input_feed_step d context lens st emb_t) emb st0)) =
     length (fs_std st0) + length emb \<and>
   (copy_flag d \<longrightarrow>
     length (fs_copy (fold (\<lambda>emb_t st. input_feed_step d context lens st emb_t) emb st0)) =
       length (fs_copy st0) + length emb) \<and>
   (coverage_flag d \<longrightarrow>
     length (fs_cov (fold (\<lambda>emb_t st. input_feed_step d context lens st emb_t) emb st0)) =
       length (fs_cov st0) + length emb)"
proof (induction emb arbitrary: st0)
  case Nil
  then show ?case by simp
next
  case (Cons emb_t emb)
  have step: "length (fs_outputs (input_feed_step d context lens st0 emb_t)) = Suc (length (fs_outputs st0))"
    "length (fs_std (input_feed_step d context lens st0 emb_t)) = Suc (length (fs_std st0))"
    "copy_flag d \<Longrightarrow>
       length (fs_copy (input_feed_step d context lens st0 emb_t)) = Suc (length (fs_copy st0))"
    "coverage_flag d \<Longrightarrow>
       length (fs_cov (input_feed_step d context lens st0 emb_t)) = Suc (length (fs_cov st0))"
    by (simp_all add: input_feed_step_def Let_def)
  show ?case
    using Cons.IH [of "input_feed_step d context lens st0 emb_t"] step by simp
qed

lemma input_feed_run_lengths:
  assumes "input_feed_run_forward_pass d input context state lens = Inr (h, outputs, attns, cov)"
  shows "length outputs = length input \<and> list_all (\<lambda>(k, a). length a = length input) attns"
proof -
  from assms obtain out0 where feed: "input_feed state = [out0]"
    by (auto simp: input_feed_run_forward_pass_def split: list.splits)
  define st0 where "st0 = \<lparr>fs_hidden = hidden state, fs_output = out0,
                         fs_coverage = (case coverage state of
                                          None \<Rightarrow> None
                                        | Some cov \<Rightarrow> (case cov of [c] \<Rightarrow> Some c | _ \<Rightarrow> None)),
                         fs_outputs = [], fs_std = [], fs_copy = [], fs_cov = []\<rparr>"
  define st where
    "st = fold (\<lambda>emb_t st. input_feed_step d context lens st emb_t) (map (tgt_embeddings d) input) st0"
  have res: "outputs = fs_outputs st"
    "attns = [(''std'', fs_std st)] @
             (if copy_flag d then [(''copy'', fs_copy st)] else []) @
             (if coverage_flag d then [(''coverage'', fs_cov st)] else [])"
    using assms feed unfolding input_feed_run_forward_pass_def st_def st0_def Let_def
    by (simp_all split: if_splits)
  have len: "length (fs_outputs st) = length input" "length (fs_std st) = length input"
    "copy_flag d \<Longrightarrow> length (fs_copy st) = length input"
    "coverage_flag d \<Longrightarrow> length (fs_cov st) = length input"
    using input_feed_fold_lengths [of d "context" lens "map (tgt_embeddings d) input" st0]
    unfolding st_def by (simp_all add: st0_def)
  show ?thesis unfolding res using len by simp
qed





lemma input_feed_forward_returns:
  assumes cls: "decoder_class d = InputFeedRNNDecoder"
    and ne: "input \<noteq> []" and batch: "size1 input = size1 context"
    and feed: "input_feed state = [replicate (size1 context) v]"
  shows "\<exists>out state' attns.
           RNNDecoderBase_forward d input context state lens = Inr (out, state', attns) \<and>
           length out = length input"
proof -
  obtain h outputs attns cov
    where run: "input_feed_run_forward_pass d input context state lens = Inr (h, outputs, attns, cov)"
    unfolding input_feed_run_forward_pass_def Let_def using feed batch by simp
  from input_feed_run_lengths [OF run]
  have len: "length outputs = length input" "list_all (\<lambda>(k, a). length a = length input) attns"
    by simp_all
  have "outputs \<noteq> []" using len(1) ne by auto
  moreover have "list_all (\<lambda>(k, a). a \<noteq> []) attns"
    using len(2) ne by (auto simp: list_all_iff)
  ultimately show ?thesis
    unfolding RNNDecoderBase_forward_def Let_def using run cls batch len(1) by simp
qed

lemma NMTModel_forward_returns:
  assumes tgt: "2 \<le> length tgt"
    and enc: "encoder src lengths = Inr (enc_hidden, context)"
    and cls: "decoder_class d = InputFeedRNNDecoder"
    and uni: "\<not> bidirectional_encoder d"
    and batch: "size1 tgt = size1 context"
  shows "\<exists>out attns st.
           NMTModel_forward encoder d multigpu src tgt lengths None = Inr (out, attns, st) \<and>
           length out = length tgt - 1"
proof -
  have cut: "exclude_last tgt = Inr (butlast tgt)"
    using tgt by (simp add: exclude_last_def)
  have "comprehension (fix_enc_hidden d) enc_hidden = Inr (map (\<lambda>h. h) enc_hidden)"
    using uni by (intro comprehension_map) (simp add: fix_enc_hidden_def)
  then have init: "init_decoder_state d context enc_hidden =
      Inr \<lparr>hidden = enc_hidden,
           input_feed = [replicate (size1 context) (replicate (hidden_size d) 0)],
           coverage = None\<rparr>"
    by (simp add: init_decoder_state_def)
  have ne: "butlast tgt \<noteq> []" using tgt by (cases tgt) (auto simp: butlast_conv_take)
  have b: "size1 (butlast tgt) = size1 context"
  proof -
    obtain r1 r2 rest where "tgt = r1 # r2 # rest"
      using tgt by (cases tgt; cases "tl tgt") auto
    then show ?thesis using batch by (simp add: size1_def)
  qed
  from input_feed_forward_returns [OF cls ne b, of _ "replicate (hidden_size d) 0" lengths]
  obtain out state' attns
    where "RNNDecoderBase_forward d (butlast tgt) context
             \<lparr>hidden = enc_hidden,
              input_feed = [replicate (size1 context) (replicate (hidden_size d) 0)],
              coverage = None\<rparr> lengths = Inr (out, state', attns)"
      and "length out = length (butlast tgt)"
    by (metis RNNDecoderState.select_convs(2))
  then show ?thesis
    unfolding NMTModel_forward_def using cut enc init by simp
qed






end
